theory Spec2Isabelle
  imports Complex_Main "HOL-Library.AList"
begin

section \<open>Data model of memory_simulator.py\<close>

text \<open>
  A \<open>MemoryBlock\<close> object has the fields start, size, end and pid; the fields next and
  prev are set to None by the constructor and never touched again, so they are left out.
  The field names size and end are taken in HOL, hence \<open>bsize\<close> and \<open>bend\<close>.
\<close>

record block =
  start :: int
  bsize :: int
  bend :: int
  bpid :: string

definition MemoryBlock :: "int \<Rightarrow> int \<Rightarrow> string \<Rightarrow> block" where
  "MemoryBlock s n p = \<lparr>start = s, bsize = n, bend = s + n - 1, bpid = p\<rparr>"

text \<open>
  The dataclass \<open>Process\<close> of memory_simulator.py. Python ints are unbounded, so sizes are
  \<open>int\<close>. The two float fields are only stored and passed on; they are kept as rationals.
\<close>

record process =
  pid :: string
  psize :: int
  arrival_time :: rat
  duration :: rat

definition Process :: "string \<Rightarrow> int \<Rightarrow> rat \<Rightarrow> process" where
  "Process i n t = \<lparr>pid = i, psize = n, arrival_time = t, duration = 10\<rparr>"

text \<open>
  One entry of \<open>fragmentation_history\<close>. The key 'external' is a float in the source;
  the model keeps the exact quotient, the source rounds it to double precision.
\<close>

record snapshot =
  time :: rat
  external :: rat
  internal :: int
  total_free :: int
  free_blocks :: nat

text \<open>
  The manager. Blocks are objects that are shared between \<open>memory_map\<close> and
  \<open>allocated_processes\<close> and mutated in place, so the model has an explicit store:
  \<open>heap\<close> holds every block object ever created, a reference is an index into it, and
  a new object is appended at the end. \<open>memory_map\<close> is the list of references in ledger
  order and \<open>allocated_processes\<close> the dict from pid to reference, an association list in
  insertion order as a Python dict is. \<open>free_list\<close> is the copy of the first ledger that
  the constructor takes; nothing reads it afterwards.
\<close>

record manager =
  total_memory :: int
  available_memory :: int
  heap :: "block list"
  memory_map :: "nat list"
  allocated_processes :: "(string \<times> nat) list"
  free_list :: "nat list"
  fragmentation_history :: "snapshot list"
  allocation_count :: int
  next_fit_start :: nat

definition blk :: "manager \<Rightarrow> nat \<Rightarrow> block" where
  "blk m r = heap m ! r"

definition is_free :: "block \<Rightarrow> bool" where
  "is_free b = (bpid b = ''FREE'')"

text \<open>The ledger as the sequence of block values, in \<open>memory_map\<close> order.\<close>

definition ledger :: "manager \<Rightarrow> block list" where
  "ledger m = map (blk m) (memory_map m)"

text \<open>\<open>list.insert(i, x)\<close> for \<open>i \<ge> 0\<close>: beyond the end it appends.\<close>

definition list_insert :: "nat \<Rightarrow> 'a \<Rightarrow> 'a list \<Rightarrow> 'a list" where
  "list_insert i x xs = take i xs @ x # drop i xs"

text \<open>\<open>list.pop(i)\<close>; the only call site has \<open>i < len\<close>, where Python does not raise.\<close>

definition list_pop :: "nat \<Rightarrow> 'a list \<Rightarrow> 'a list" where
  "list_pop i xs = take i xs @ drop (Suc i) xs"

section \<open>Fragmentation metrics\<close>

text \<open>
  The private methods keep their names without the leading underscore. Every operation
  that reads the clock takes the reading of \<open>time.time()\<close> as its argument \<open>now\<close>.

  \<open>_get_process_by_pid\<close> builds a Process whose size is the size of the block the index
  holds for the pid. The dict lookup raises KeyError on a missing pid: that is the value
  \<open>None\<close> here. Its only caller, the sum in \<open>_update_fragmentation\<close>, passes the keys
  of the index, for which the lookup succeeds (lemma \<open>get_process_by_pid_defined\<close>), so
  the \<open>None\<close> branch of \<open>internal_frag\<close> is never taken.
\<close>

definition get_process_by_pid :: "manager \<Rightarrow> rat \<Rightarrow> string \<Rightarrow> process option" where
  "get_process_by_pid m now p =
     (case map_of (allocated_processes m) p of
        None \<Rightarrow> None
      | Some r \<Rightarrow> Some (Process p (bsize (blk m r)) now))"

text \<open>\<open>max(xs, default=0)\<close>.\<close>

definition max_default :: "int list \<Rightarrow> int" where
  "max_default xs = (case xs of [] \<Rightarrow> 0 | x # ys \<Rightarrow> fold max ys x)"

definition internal_frag :: "manager \<Rightarrow> rat \<Rightarrow> int" where
  "internal_frag m now =
     sum_list (map (\<lambda>(p, r).
        (case get_process_by_pid m now p of
           None \<Rightarrow> 0
         | Some pr \<Rightarrow> if bsize (blk m r) > psize pr then bsize (blk m r) - psize pr else 0))
        (allocated_processes m))"

definition update_fragmentation :: "manager \<Rightarrow> rat \<Rightarrow> manager" where
  "update_fragmentation m now =
     (let frees = filter is_free (ledger m);
          tf = sum_list (map bsize frees);
          external_frag =
            (if tf = 0 then 0
             else (let max_free_block = max_default (map bsize frees)
                   in if tf > 0 then 1 - (of_int max_free_block / of_int tf) else 0))
      in m\<lparr>fragmentation_history := fragmentation_history m @
            [\<lparr>time = now, external = external_frag * 100, internal = internal_frag m now,
              total_free = tf, free_blocks = length frees\<rparr>]\<rparr>)"

text \<open>The constructor \<open>MemoryManager(total_memory)\<close>.\<close>

definition MemoryManager :: "rat \<Rightarrow> int \<Rightarrow> manager" where
  "MemoryManager now tm =
     update_fragmentation
       \<lparr>total_memory = tm, available_memory = tm,
        heap = [MemoryBlock 0 tm ''FREE''], memory_map = [0],
        allocated_processes = [], free_list = [0], fragmentation_history = [],
        allocation_count = 0, next_fit_start = 0\<rparr> now"

section \<open>Committing a block\<close>

text \<open>
  \<open>_allocate_block(index, block, process)\<close>: \<open>r\<close> is the reference of \<open>block\<close>. The
  result pairs the new manager with the returned tuple \<open>(True, block.start)\<close>.
\<close>

definition allocate_block ::
  "manager \<Rightarrow> rat \<Rightarrow> nat \<Rightarrow> nat \<Rightarrow> process \<Rightarrow> manager \<times> bool \<times> int" where
  "allocate_block m now index r p =
     (let b = blk m r;
          m1 =
            (if bsize b = psize p then
               m\<lparr>heap := (heap m)[r := b\<lparr>bpid := pid p\<rparr>],
                 allocated_processes := AList.update (pid p) r (allocated_processes m),
                 available_memory := available_memory m - psize p\<rparr>
             else
               (let remaining = bsize b - psize p;
                    b' = b\<lparr>bsize := psize p, bend := start b + psize p - 1, bpid := pid p\<rparr>;
                    free_block = MemoryBlock (bend b' + 1) remaining ''FREE''
                in m\<lparr>heap := (heap m)[r := b'] @ [free_block],
                     memory_map := list_insert (index + 1) (length (heap m)) (memory_map m),
                     allocated_processes := AList.update (pid p) r (allocated_processes m),
                     available_memory := available_memory m - psize p\<rparr>));
          m2 = update_fragmentation (m1\<lparr>allocation_count := allocation_count m1 + 1\<rparr>) now
      in (m2, True, start (blk m2 r)))"

section \<open>The allocation strategies\<close>

definition fits :: "manager \<Rightarrow> process \<Rightarrow> nat \<Rightarrow> bool" where
  "fits m p i = (let b = blk m (memory_map m ! i) in is_free b \<and> bsize b \<ge> psize p)"

definition first_fit :: "manager \<Rightarrow> rat \<Rightarrow> process \<Rightarrow> manager \<times> bool \<times> int" where
  "first_fit m now p =
     (case find (fits m p) [0..<length (memory_map m)] of
        Some i \<Rightarrow> allocate_block m now i (memory_map m ! i) p
      | None \<Rightarrow> (m, False, -1))"

text \<open>
  The scan of \<open>best_fit\<close>: the accumulator is \<open>best_index\<close> (\<open>None\<close> while
  \<open>best_block\<close> is None) and \<open>min_waste\<close> (\<open>None\<close> for \<open>float('inf')\<close>).
\<close>

definition best_fit_scan :: "manager \<Rightarrow> process \<Rightarrow> nat option \<times> int option" where
  "best_fit_scan m p =
     fold (\<lambda>i (best, min_waste).
            if fits m p i then
              (let waste = bsize (blk m (memory_map m ! i)) - psize p
               in if (case min_waste of None \<Rightarrow> True | Some w \<Rightarrow> waste < w)
                  then (Some i, Some waste) else (best, min_waste))
            else (best, min_waste))
          [0..<length (memory_map m)] (None, None)"

definition best_fit :: "manager \<Rightarrow> rat \<Rightarrow> process \<Rightarrow> manager \<times> bool \<times> int" where
  "best_fit m now p =
     (case fst (best_fit_scan m p) of
        Some i \<Rightarrow> allocate_block m now i (memory_map m ! i) p
      | None \<Rightarrow> (m, False, -1))"

definition worst_fit_scan :: "manager \<Rightarrow> process \<Rightarrow> nat option \<times> int" where
  "worst_fit_scan m p =
     fold (\<lambda>i (worst, max_size).
            if fits m p i then
              (if bsize (blk m (memory_map m ! i)) > max_size
               then (Some i, bsize (blk m (memory_map m ! i))) else (worst, max_size))
            else (worst, max_size))
          [0..<length (memory_map m)] (None, -1)"

definition worst_fit :: "manager \<Rightarrow> rat \<Rightarrow> process \<Rightarrow> manager \<times> bool \<times> int" where
  "worst_fit m now p =
     (case fst (worst_fit_scan m p) of
        Some i \<Rightarrow> allocate_block m now i (memory_map m ! i) p
      | None \<Rightarrow> (m, False, -1))"

text \<open>
  \<open>next_fit\<close>: \<open>n\<close> is the length of the ledger before the allocation, and the cursor
  is stored before \<open>_allocate_block\<close> runs.
\<close>

definition next_fit :: "manager \<Rightarrow> rat \<Rightarrow> process \<Rightarrow> manager \<times> bool \<times> int" where
  "next_fit m now p =
     (let n = length (memory_map m)
      in case find (\<lambda>i. fits m p ((next_fit_start m + i) mod n)) [0..<n] of
           Some i \<Rightarrow>
             (let idx = (next_fit_start m + i) mod n
              in allocate_block (m\<lparr>next_fit_start := (idx + 1) mod n\<rparr>) now idx
                   (memory_map m ! idx) p)
         | None \<Rightarrow> (m, False, -1))"

text \<open>\<open>int.bit_length()\<close>: the number of bits of the absolute value.\<close>

fun bits :: "nat \<Rightarrow> nat" where
  "bits n = (if n = 0 then 0 else Suc (bits (n div 2)))"

definition bit_length :: "int \<Rightarrow> nat" where
  "bit_length x = bits (nat \<bar>x\<bar>)"

definition next_power_of_two :: "int \<Rightarrow> int" where
  "next_power_of_two n = 2 ^ bit_length (n - 1)"

text \<open>
  \<open>_split_buddy_block\<close>: the while loop halves the block in place and inserts the new
  upper half behind it. Nothing in the loop bounds it for a target below the sizes it
  reaches, so it is a partial function: \<open>None\<close> is the loop that never ends.
\<close>

partial_function (option) split_buddy_block ::
  "manager \<Rightarrow> nat \<Rightarrow> nat \<Rightarrow> int \<Rightarrow> manager option" where
  "split_buddy_block m index r target_size =
     (if bsize (blk m r) > target_size then
        (let b = blk m r;
             new_size = bsize b div 2;
             new_block = MemoryBlock (start b + new_size) new_size ''FREE''
         in split_buddy_block
              (m\<lparr>heap := (heap m)[r := b\<lparr>bsize := new_size, bend := start b + new_size - 1\<rparr>]
                            @ [new_block],
                 memory_map := list_insert (index + 1) (length (heap m)) (memory_map m)\<rparr>)
              index r target_size)
      else Some m)"

declare split_buddy_block.simps [code]

definition buddy_system :: "manager \<Rightarrow> rat \<Rightarrow> process \<Rightarrow> (manager \<times> bool \<times> int) option" where
  "buddy_system m now p =
     (let size_needed = next_power_of_two (psize p)
      in case find (\<lambda>i. let b = blk m (memory_map m ! i)
                        in is_free b \<and> (bsize b = size_needed \<or> bsize b > size_needed))
                [0..<length (memory_map m)] of
           None \<Rightarrow> Some (m, False, -1)
         | Some i \<Rightarrow>
             (if bsize (blk m (memory_map m ! i)) = size_needed
              then Some (allocate_block m now i (memory_map m ! i) p)
              else (case split_buddy_block m i (memory_map m ! i) size_needed of
                      None \<Rightarrow> None
                    | Some m' \<Rightarrow> Some (allocate_block m' now i (memory_map m' ! i) p))))"

section \<open>Deallocation and coalescing\<close>

function merge_loop :: "manager \<Rightarrow> nat \<Rightarrow> manager" where
  "merge_loop m i =
     (if i + 1 < length (memory_map m) then
        (let c = memory_map m ! i; n = memory_map m ! (i + 1)
         in if is_free (blk m c) \<and> is_free (blk m n) then
              (let sz = bsize (blk m c) + bsize (blk m n)
               in merge_loop
                    (m\<lparr>heap := (heap m)[c := (blk m c)\<lparr>bsize := sz,
                                                        bend := start (blk m c) + sz - 1\<rparr>],
                       memory_map := list_pop (i + 1) (memory_map m)\<rparr>) i)
            else merge_loop m (i + 1))
      else m)"
  by pat_completeness auto
termination
  by (relation "measure (\<lambda>(m, i). 2 * length (memory_map m) - i)")
     (auto simp: list_pop_def)

declare merge_loop.simps [simp del]

definition merge_free_blocks :: "manager \<Rightarrow> manager" where
  "merge_free_blocks m = merge_loop m 0"

definition deallocate :: "manager \<Rightarrow> rat \<Rightarrow> string \<Rightarrow> manager \<times> bool" where
  "deallocate m now p =
     (case map_of (allocated_processes m) p of
        None \<Rightarrow> (m, False)
      | Some r \<Rightarrow>
          (let b = blk m r;
               m1 = m\<lparr>heap := (heap m)[r := b\<lparr>bpid := ''FREE''\<rparr>],
                      available_memory := available_memory m + bsize b,
                      allocated_processes := AList.delete p (allocated_processes m)\<rparr>
           in (update_fragmentation (merge_free_blocks m1) now, True)))"

section \<open>Driving the allocator\<close>

text \<open>
  \<open>allocate_process\<close> of main.py dispatches on the selected \<open>AllocationAlgorithm\<close>.
  \<open>buddy_system\<close> is the one strategy with a loop that is not bounded by the ledger,
  so the result is an option.
\<close>

datatype AllocationAlgorithm = FIRST_FIT | BEST_FIT | WORST_FIT | NEXT_FIT | BUDDY_SYSTEM

fun allocate ::
  "AllocationAlgorithm \<Rightarrow> manager \<Rightarrow> rat \<Rightarrow> process \<Rightarrow> (manager \<times> bool \<times> int) option" where
  "allocate FIRST_FIT m now p = Some (first_fit m now p)"
| "allocate BEST_FIT m now p = Some (best_fit m now p)"
| "allocate WORST_FIT m now p = Some (worst_fit m now p)"
| "allocate NEXT_FIT m now p = Some (next_fit m now p)"
| "allocate BUDDY_SYSTEM m now p = buddy_system m now p"

text \<open>A call of the public interface, and a sequence of calls on one manager.\<close>

datatype call = Allocate AllocationAlgorithm process | Release string

fun step :: "rat \<Rightarrow> manager \<Rightarrow> call \<Rightarrow> manager option" where
  "step now m (Allocate a p) = map_option fst (allocate a m now p)"
| "step now m (Release k) = Some (fst (deallocate m now k))"

fun run :: "rat \<Rightarrow> manager \<Rightarrow> call list \<Rightarrow> manager option" where
  "run now m [] = Some m"
| "run now m (c # cs) = (case step now m c of None \<Rightarrow> None | Some m' \<Rightarrow> run now m' cs)"

section \<open>Export and import of the state (main.py)\<close>

text \<open>
  The entries of \<open>process_history\<close> are \<open>Process\<close> objects of process_generator.py, which
  have three more fields than the allocator's dataclass.
\<close>

datatype ProcessType = INTERACTIVE | BATCH | SYSTEM | REAL_TIME | MEMORY_INTENSIVE

record gen_process = process +
  priority :: int
  process_type :: ProcessType
  state :: string

record app =
  memory_manager :: manager
  process_history :: "gen_process list"

text \<open>
  The exported document: the dict with the keys 'memory_map' (dicts of start, size, pid)
  and 'processes' (dicts of pid, size, arrival_time, duration). The file and its JSON
  text are not modelled: the document that is read is the one that was written.
\<close>

record state_doc =
  doc_memory_map :: "(int \<times> int \<times> string) list"
  doc_processes :: "(string \<times> int \<times> rat \<times> rat) list"

definition export_memory_state :: "app \<Rightarrow> state_doc" where
  "export_memory_state a =
     \<lparr>doc_memory_map = map (\<lambda>b. (start b, bsize b, bpid b)) (ledger (memory_manager a)),
      doc_processes =
        map (\<lambda>p. (pid p, psize p, arrival_time p, duration p)) (process_history a)\<rparr>"

text \<open>
  \<open>import_memory_state\<close>: a new \<open>MemoryManager(1024)\<close> whose \<open>memory_map\<close> is emptied
  and refilled with new block objects; nothing else of the new manager is assigned.
\<close>

definition import_memory_state :: "rat \<Rightarrow> state_doc \<Rightarrow> app" where
  "import_memory_state now d =
     \<lparr>memory_manager =
        fold (\<lambda>(s, n, p) m.
                m\<lparr>heap := heap m @ [\<lparr>start = s, bsize = n, bend = s + n - 1, bpid = p\<rparr>],
                  memory_map := memory_map m @ [length (heap m)]\<rparr>)
             (doc_memory_map d) ((MemoryManager now 1024)\<lparr>memory_map := []\<rparr>),
      process_history =
        map (\<lambda>(i, n, t, d). \<lparr>pid = i, psize = n, arrival_time = t, duration = d,
                               priority = 1, process_type = INTERACTIVE, state = ''READY''\<rparr>)
            (doc_processes d)\<rparr>"

section \<open>Compaction\<close>

text \<open>
  Modelled from the spec: \<open>relocate\<close> is the in-place part of \<open>compact_memory\<close>, which
  the source does not define. It gives the owned blocks, in ledger order, the lowest
  addresses with no gaps: each block's start and end are rewritten in the store, its size
  and owner stay.
\<close>

fun relocate :: "block list \<Rightarrow> int \<Rightarrow> nat list \<Rightarrow> block list" where
  "relocate h a [] = h"
| "relocate h a (r # rs) =
     relocate (h[r := (h ! r)\<lparr>start := a, bend := a + bsize (h ! r) - 1\<rparr>])
              (a + bsize (h ! r)) rs"

text \<open>
  Modelled from the spec: \<open>compact_memory\<close> is called by the tests and by fragmentation.py,
  but \<open>MemoryManager\<close> does not define it. The spec's words: the ledger is rewritten so
  that all owned segments are relocated, in their original relative order, to the lowest
  addresses with no gaps, followed by exactly one trailing FREE segment holding all freed
  space; the owned segments' start and end are updated in place, so the allocation index
  sees them.
\<close>

definition compact_memory :: "manager \<Rightarrow> manager" where
  "compact_memory m =
     (let owned = filter (\<lambda>r. \<not> is_free (blk m r)) (memory_map m);
          used = sum_list (map (\<lambda>r. bsize (blk m r)) owned);
          freed = sum_list (map bsize (filter is_free (ledger m)))
      in m\<lparr>heap := relocate (heap m) 0 owned @ [MemoryBlock used freed ''FREE''],
           memory_map := owned @ [length (heap m)]\<rparr>)"

section \<open>Notions used by the properties\<close>

text \<open>The sum of the sizes of the owned (non-FREE) segments of the ledger.\<close>

definition owned_total :: "manager \<Rightarrow> int" where
  "owned_total m = sum_list (map bsize (filter (\<lambda>b. \<not> is_free b) (ledger m)))"

text \<open>The size of the segment the allocation index holds for a pid.\<close>

definition committed_size :: "manager \<Rightarrow> string \<Rightarrow> int option" where
  "committed_size m k = map_option (\<lambda>r. bsize (blk m r)) (map_of (allocated_processes m) k)"

text \<open>The (start, size, owner) tuples of the ledger.\<close>

definition tuples :: "manager \<Rightarrow> (int \<times> int \<times> string) list" where
  "tuples m = map (\<lambda>b. (start b, bsize b, bpid b)) (ledger m)"

text \<open>The references of the owned segments, in ledger order.\<close>

definition owned_refs :: "manager \<Rightarrow> nat list" where
  "owned_refs m = filter (\<lambda>r. \<not> is_free (blk m r)) (memory_map m)"

text \<open>
  Well-formedness of the store: every reference of the ledger and of the index points
  into the heap, no block object occurs twice in the ledger, and the index has one entry
  per key, as a dict has.
\<close>

definition refs_ok :: "manager \<Rightarrow> bool" where
  "refs_ok m =
     ((\<forall>r \<in> set (memory_map m). r < length (heap m)) \<and>
      (\<forall>k r. map_of (allocated_processes m) k = Some r \<longrightarrow> r < length (heap m)) \<and>
      distinct (memory_map m) \<and> distinct (map fst (allocated_processes m)))"

definition same_books :: "manager \<Rightarrow> manager \<Rightarrow> bool" where
  "same_books m m1 =
     (total_memory m1 = total_memory m \<and> available_memory m1 = available_memory m \<and>
      allocated_processes m1 = allocated_processes m \<and>
      fragmentation_history m1 = fragmentation_history m)"

text \<open>
  The frame of splitting and merging: between \<open>m\<close> and \<open>m1\<close> only FREE blocks were
  changed, created or dropped from the ledger.
\<close>

definition only_free_changed :: "manager \<Rightarrow> manager \<Rightarrow> bool" where
  "only_free_changed m m1 =
     (same_books m m1 \<and> length (heap m) \<le> length (heap m1) \<and>
      (\<forall>r < length (heap m1). \<not> is_free (heap m1 ! r) \<longrightarrow>
           r < length (heap m) \<and> heap m1 ! r = heap m ! r) \<and>
      (\<forall>r < length (heap m). is_free (heap m ! r) \<longrightarrow> is_free (heap m1 ! r)) \<and>
      owned_refs m1 = owned_refs m)"

text \<open>
  Every entry of the allocation index refers to a segment of the ledger that carries the
  entry's key as its owner, and no key is the sentinel.
\<close>

definition index_ok :: "manager \<Rightarrow> bool" where
  "index_ok m =
     (\<forall>k r. map_of (allocated_processes m) k = Some r \<longrightarrow>
        r \<in> set (memory_map m) \<and> bpid (blk m r) = k \<and> k \<noteq> ''FREE'')"

text \<open>A call whose request does not carry the sentinel \<open>''FREE''\<close> as its id.\<close>

fun proper_call :: "call \<Rightarrow> bool" where
  "proper_call (Allocate a p) = (pid p \<noteq> ''FREE'')"
| "proper_call (Release k) = True"

text \<open>Conservation: the free-memory counter against the owned segments of the ledger.\<close>

definition conserved :: "manager \<Rightarrow> bool" where
  "conserved m = (available_memory m = total_memory m - owned_total m)"

subsection \<open>The requests behind the owned segments\<close>

text \<open>
  The manager does not keep the requests it was given. To state what a fragmentation
  snapshot should hold, the calls are run together with a side table that records, for
  each successful allocation, the request that was issued, under the reference of the
  segment that was committed to it (the segment the allocation index holds for the
  request's id after the call).
\<close>

type_synonym issued = "(nat \<times> process) list"

fun step_logged :: "rat \<Rightarrow> manager \<times> issued \<Rightarrow> call \<Rightarrow> (manager \<times> issued) option" where
  "step_logged now (m, lg) (Allocate a p) =
     (case allocate a m now p of
        None \<Rightarrow> None
      | Some (m', ok, addr) \<Rightarrow>
          Some (m', if ok then (case map_of (allocated_processes m') (pid p) of
                                  Some r \<Rightarrow> AList.update r p lg
                                | None \<Rightarrow> lg)
                    else lg))"
| "step_logged now (m, lg) (Release k) = Some (fst (deallocate m now k), lg)"

fun run_logged :: "rat \<Rightarrow> manager \<times> issued \<Rightarrow> call list \<Rightarrow> (manager \<times> issued) option" where
  "run_logged now s [] = Some s"
| "run_logged now s (c # cs) =
     (case step_logged now s c of None \<Rightarrow> None | Some s' \<Rightarrow> run_logged now s' cs)"

text \<open>
  Internal fragmentation as the spec words it: the sum of segment size minus logical
  request size over the owned segments whose size is larger than the size of the
  request they were committed to.
\<close>

definition internal_fragmentation_spec :: "manager \<Rightarrow> issued \<Rightarrow> int" where
  "internal_fragmentation_spec m lg =
     sum_list (map (\<lambda>r. case map_of lg r of
                           None \<Rightarrow> 0
                         | Some p \<Rightarrow> if bsize (blk m r) > psize p
                                     then bsize (blk m r) - psize p else 0)
                   (owned_refs m))"

text \<open>Every owned block has its request in the side table, and has that request's size.\<close>

definition logged_ok :: "manager \<Rightarrow> issued \<Rightarrow> bool" where
  "logged_ok m lg =
     (\<forall>r < length (heap m). \<not> is_free (heap m ! r) \<longrightarrow>
        map_option psize (map_of lg r) = Some (bsize (heap m ! r)))"

text \<open>The history holds a snapshot, and every snapshot reports 0 wasted bytes.\<close>

definition hist_ok :: "manager \<Rightarrow> bool" where
  "hist_ok m = (fragmentation_history m \<noteq> [] \<and>
                (\<forall>s \<in> set (fragmentation_history m). internal s = 0))"

subsection \<open>Compacted ledgers\<close>

text \<open>
  \<open>pack a bs\<close> is the list of segments \<open>bs\<close> laid out one behind the other from
  address \<open>a\<close>, each keeping its size and owner; \<open>contiguous a bs\<close> says that a ledger
  starts at \<open>a\<close> and has no gap and no overlap.
\<close>

fun pack :: "int \<Rightarrow> block list \<Rightarrow> block list" where
  "pack a [] = []"
| "pack a (b # bs) = b\<lparr>start := a, bend := a + bsize b - 1\<rparr> # pack (a + bsize b) bs"

fun contiguous :: "int \<Rightarrow> block list \<Rightarrow> bool" where
  "contiguous a [] = True"
| "contiguous a (b # bs) =
     (start b = a \<and> bend b = a + bsize b - 1 \<and> contiguous (a + bsize b) bs)"

definition free_total :: "manager \<Rightarrow> int" where
  "free_total m = sum_list (map bsize (filter is_free (ledger m)))"

subsection \<open>The ledger invariants of the spec\<close>

definition ledger_total :: "manager \<Rightarrow> int" where
  "ledger_total m = sum_list (map bsize (ledger m))"

fun no_adjacent_free :: "bool list \<Rightarrow> bool" where
  "no_adjacent_free (a # b # xs) = (\<not> (a \<and> b) \<and> no_adjacent_free (b # xs))"
| "no_adjacent_free xs = True"

text \<open>The FREE flags of the ledger, segment by segment.\<close>

definition free_flags :: "manager \<Rightarrow> bool list" where
  "free_flags m = map is_free (ledger m)"

text \<open>A call that is not a buddy allocation.\<close>

fun plain_call :: "call \<Rightarrow> bool" where
  "plain_call (Allocate a p) = (a \<noteq> BUDDY_SYSTEM)"
| "plain_call (Release k) = True"

section \<open>Invariants of the manager\<close>

subsection \<open>Lists and the fragmentation update\<close>

lemma uf_fields [simp]:
  "heap (update_fragmentation m now) = heap m"
  "memory_map (update_fragmentation m now) = memory_map m"
  "allocated_processes (update_fragmentation m now) = allocated_processes m"
  "available_memory (update_fragmentation m now) = available_memory m"
  "total_memory (update_fragmentation m now) = total_memory m"
  "next_fit_start (update_fragmentation m now) = next_fit_start m"
  "allocation_count (update_fragmentation m now) = allocation_count m"
  "free_list (update_fragmentation m now) = free_list m"
  by (simp_all add: update_fragmentation_def Let_def)

lemma uf_history:
  "fragmentation_history (update_fragmentation m now) \<noteq> []"
  "internal (last (fragmentation_history (update_fragmentation m now))) = internal_frag m now"
  by (simp_all add: update_fragmentation_def Let_def)

lemma blk_uf [simp]: "blk (update_fragmentation m now) r = blk m r"
  by (simp add: blk_def)

lemma ledger_uf [simp]: "ledger (update_fragmentation m now) = ledger m"
  by (simp add: ledger_def blk_def[abs_def])

lemma set_list_insert [simp]: "set (list_insert i x xs) = insert x (set xs)"
proof -
  have B: "set xs = set (take i xs) \<union> set (drop i xs)"
    using set_append[of "take i xs" "drop i xs"] by (simp only: append_take_drop_id)
  have "set (take i xs @ x # drop i xs) = insert x (set (take i xs) \<union> set (drop i xs))"
    by (simp only: set_append set_simps) blast
  then show ?thesis by (simp only: list_insert_def B)
qed

lemma distinct_list_insert [simp]: "distinct (list_insert i x xs) = (x \<notin> set xs \<and> distinct xs)"
proof -
  have A: "distinct xs = (distinct (take i xs) \<and> distinct (drop i xs) \<and> set (take i xs) \<inter> set (drop i xs) = {})"
    using distinct_append[of "take i xs" "drop i xs"] by (simp only: append_take_drop_id)
  have B: "set xs = set (take i xs) \<union> set (drop i xs)"
    using set_append[of "take i xs" "drop i xs"] by (simp only: append_take_drop_id)
  have "distinct (take i xs @ x # drop i xs) =
        (x \<notin> set (take i xs) \<union> set (drop i xs) \<and> distinct (take i xs) \<and> distinct (drop i xs) \<and>
         set (take i xs) \<inter> set (drop i xs) = {})"
    by (simp only: distinct_append distinct.simps set_simps) blast
  then show ?thesis by (simp only: list_insert_def A B)
qed

lemma length_list_insert [simp]: "length (list_insert i x xs) = Suc (length xs)"
  by (simp add: list_insert_def)

lemma nth_list_insert_before: "j < i \<Longrightarrow> j < length xs \<Longrightarrow> list_insert i x xs ! j = xs ! j"
  by (simp add: list_insert_def nth_append)

lemma filter_take_drop: "filter P (take i xs) @ filter P (drop i xs) = filter P xs"
proof -
  have "filter P (take i xs @ drop i xs) = filter P (take i xs) @ filter P (drop i xs)"
    by (simp only: filter_append)
  then show ?thesis by (simp only: append_take_drop_id)
qed

lemma filter_list_insert: "\<not> P x \<Longrightarrow> filter P (list_insert i x xs) = filter P xs"
  by (simp add: list_insert_def filter_take_drop)

lemma sum_take_drop: "sum_list (map f (take i xs)) + sum_list (map f (drop i xs)) = (sum_list (map f xs) :: int)"
proof -
  have "sum_list (map f (take i xs @ drop i xs)) =
        sum_list (map f (take i xs)) + sum_list (map f (drop i xs))"
    by (simp only: map_append sum_list_append)
  then show ?thesis by (simp only: append_take_drop_id)
qed

lemma sum_list_insert: "sum_list (map f (list_insert i x xs)) = (f x :: int) + sum_list (map f xs)"
  using sum_take_drop[of f i xs] by (simp add: list_insert_def)

lemma list_pop_split: "i < length xs \<Longrightarrow> take i xs @ xs ! i # drop (Suc i) xs = xs"
  by (rule id_take_nth_drop[symmetric])

lemma set_list_pop_subset: "set (list_pop i xs) \<subseteq> set xs"
  by (auto simp: list_pop_def dest: in_set_takeD in_set_dropD)

lemma distinct_list_pop: "distinct xs \<Longrightarrow> distinct (list_pop i xs)"
proof (cases "i < length xs")
  case True
  assume d: "distinct xs"
  have "distinct (take i xs @ xs ! i # drop (Suc i) xs)"
    using d by (simp only: list_pop_split[OF True])
  then show ?thesis by (simp add: list_pop_def)
next
  case False
  assume "distinct xs"
  then show ?thesis using False by (simp add: list_pop_def)
qed

lemma length_list_pop: "i < length xs \<Longrightarrow> length (list_pop i xs) = length xs - 1"
  by (auto simp: list_pop_def)

lemma filter_list_pop: "i < length xs \<Longrightarrow> \<not> P (xs ! i) \<Longrightarrow> filter P (list_pop i xs) = filter P xs"
proof -
  assume a: "i < length xs" "\<not> P (xs ! i)"
  have "filter P xs = filter P (take i xs @ xs ! i # drop (Suc i) xs)"
    by (simp only: list_pop_split[OF a(1)])
  then show ?thesis using a(2) by (simp add: list_pop_def)
qed

lemma sum_list_pop: "i < length xs \<Longrightarrow> sum_list (map f (list_pop i xs)) = sum_list (map f xs) - (f (xs ! i) :: int)"
proof -
  assume a: "i < length xs"
  have "sum_list (map f xs) = sum_list (map f (take i xs @ xs ! i # drop (Suc i) xs))"
    by (simp only: list_pop_split[OF a])
  then show ?thesis by (simp add: list_pop_def)
qed

lemma nth_list_pop_before: "j \<le> i \<Longrightarrow> i < length xs \<Longrightarrow> j < i \<Longrightarrow> list_pop i xs ! j = xs ! j"
  by (simp add: list_pop_def nth_append)

subsection \<open>The frame of FREE blocks\<close>

lemma only_free_changed_refl: "only_free_changed m m"
  by (simp add: only_free_changed_def same_books_def)

lemma only_free_changed_trans:
  assumes a: "only_free_changed m m1" and b: "only_free_changed m1 m2"
  shows "only_free_changed m m2"
proof -
  have sb: "same_books m m2"
    using a b by (simp add: only_free_changed_def same_books_def)
  have l1: "length (heap m) \<le> length (heap m1)" and l2: "length (heap m1) \<le> length (heap m2)"
    using a b by (simp_all add: only_free_changed_def)
  have n1: "\<And>r. r < length (heap m1) \<Longrightarrow> \<not> is_free (heap m1 ! r) \<Longrightarrow>
      r < length (heap m) \<and> heap m1 ! r = heap m ! r"
    using a by (simp add: only_free_changed_def)
  have n2: "\<And>r. r < length (heap m2) \<Longrightarrow> \<not> is_free (heap m2 ! r) \<Longrightarrow>
      r < length (heap m1) \<and> heap m2 ! r = heap m1 ! r"
    using b by (simp add: only_free_changed_def)
  have f1: "\<And>r. r < length (heap m) \<Longrightarrow> is_free (heap m ! r) \<Longrightarrow> is_free (heap m1 ! r)"
    using a by (simp add: only_free_changed_def)
  have f2: "\<And>r. r < length (heap m1) \<Longrightarrow> is_free (heap m1 ! r) \<Longrightarrow> is_free (heap m2 ! r)"
    using b by (simp add: only_free_changed_def)
  have own: "owned_refs m2 = owned_refs m"
    using a b by (simp add: only_free_changed_def)
  have n: "\<forall>r < length (heap m2). \<not> is_free (heap m2 ! r) \<longrightarrow>
      r < length (heap m) \<and> heap m2 ! r = heap m ! r"
  proof (intro allI impI)
    fix r assume r: "r < length (heap m2)" and nf: "\<not> is_free (heap m2 ! r)"
    from n2[OF r nf] have r1: "r < length (heap m1)" and e: "heap m2 ! r = heap m1 ! r" by simp_all
    from nf e have "\<not> is_free (heap m1 ! r)" by simp
    from n1[OF r1 this] e show "r < length (heap m) \<and> heap m2 ! r = heap m ! r" by simp
  qed
  have f: "\<forall>r < length (heap m). is_free (heap m ! r) \<longrightarrow> is_free (heap m2 ! r)"
  proof (intro allI impI)
    fix r assume r: "r < length (heap m)" and fr: "is_free (heap m ! r)"
    have "r < length (heap m1)" using r l1 by simp
    then show "is_free (heap m2 ! r)" using f1[OF r fr] f2 by blast
  qed
  have le: "length (heap m) \<le> length (heap m2)" using l1 l2 by simp
  show ?thesis
    unfolding only_free_changed_def using sb le n f own by (intro conjI)
qed

lemma owned_refs_cong:
  assumes "\<forall>r \<in> set xs. is_free (blk m1 r) = is_free (blk m r)"
  shows "filter (\<lambda>r. \<not> is_free (blk m1 r)) xs = filter (\<lambda>r. \<not> is_free (blk m r)) xs"
proof (rule filter_cong)
  show "xs = xs" by (rule refl)
next
  fix r assume "r \<in> set xs"
  then show "(\<not> is_free (blk m1 r)) = (\<not> is_free (blk m r))" using assms by simp
qed

text \<open>A FREE block is rewritten (staying FREE) and a new FREE block enters the ledger.\<close>

lemma free_insert_frame:
  assumes ok: "refs_ok m" and r: "r < length (heap m)" and fr: "is_free (heap m ! r)"
    and b': "is_free b'" and nb: "is_free nb"
    and m': "m' = m\<lparr>heap := (heap m)[r := b'] @ [nb],
                     memory_map := list_insert j (length (heap m)) (memory_map m)\<rparr>"
  shows "refs_ok m'" and "only_free_changed m m'"
proof -
  have len: "length (heap m') = Suc (length (heap m))" by (simp add: m')
  have nth_old: "\<And>q. q < length (heap m) \<Longrightarrow> heap m' ! q = (if q = r then b' else heap m ! q)"
    by (simp add: m' nth_append nth_list_update)
  have nth_new: "heap m' ! length (heap m) = nb" by (simp add: m' nth_append)
  have fresh: "length (heap m) \<notin> set (memory_map m)"
    using ok by (auto simp: refs_ok_def)
  show "refs_ok m'"
    using ok fresh unfolding refs_ok_def by (auto simp: m' less_Suc_eq)
  have free_eq: "\<forall>q \<in> set (memory_map m). is_free (blk m' q) = is_free (blk m q)"
  proof
    fix q assume "q \<in> set (memory_map m)"
    then have "q < length (heap m)" using ok by (auto simp: refs_ok_def)
    then show "is_free (blk m' q) = is_free (blk m q)"
      using nth_old[of q] fr b' by (auto simp: blk_def)
  qed
  have "owned_refs m' = filter (\<lambda>q. \<not> is_free (blk m' q)) (memory_map m)"
    unfolding owned_refs_def using nth_new nb
    by (simp add: m' filter_list_insert blk_def nth_append)
  also have "\<dots> = owned_refs m"
    unfolding owned_refs_def by (rule owned_refs_cong[OF free_eq])
  finally have own: "owned_refs m' = owned_refs m" .
  have nonfree: "\<forall>q < length (heap m'). \<not> is_free (heap m' ! q) \<longrightarrow>
      q < length (heap m) \<and> heap m' ! q = heap m ! q"
  proof (intro allI impI)
    fix q assume q: "q < length (heap m')" and nf: "\<not> is_free (heap m' ! q)"
    have "q \<noteq> length (heap m)" using nf nth_new nb by auto
    then have ql: "q < length (heap m)" using q len by simp
    moreover have "q \<noteq> r" using nf nth_old[OF ql] b' by auto
    ultimately show "q < length (heap m) \<and> heap m' ! q = heap m ! q"
      using nth_old[OF ql] by simp
  qed
  have frees: "\<forall>q < length (heap m). is_free (heap m ! q) \<longrightarrow> is_free (heap m' ! q)"
  proof (intro allI impI)
    fix q assume q: "q < length (heap m)" and f: "is_free (heap m ! q)"
    show "is_free (heap m' ! q)" using nth_old[OF q] b' f by simp
  qed
  have sb: "same_books m m'" by (simp add: same_books_def m')
  have le: "length (heap m) \<le> length (heap m')" using len by simp
  show "only_free_changed m m'"
    unfolding only_free_changed_def using sb le nonfree frees own by (intro conjI)
qed

text \<open>A FREE block is rewritten (staying FREE) and a FREE block leaves the ledger.\<close>

lemma free_pop_frame:
  assumes ok: "refs_ok m" and c: "c < length (heap m)" and fc: "is_free (heap m ! c)"
    and b': "is_free b'" and j: "j < length (memory_map m)"
    and fj: "is_free (heap m ! (memory_map m ! j))"
    and m': "m' = m\<lparr>heap := (heap m)[c := b'], memory_map := list_pop j (memory_map m)\<rparr>"
  shows "refs_ok m'" and "only_free_changed m m'"
proof -
  have len: "length (heap m') = length (heap m)" by (simp add: m')
  have nth_old: "\<And>q. q < length (heap m) \<Longrightarrow> heap m' ! q = (if q = c then b' else heap m ! q)"
    by (simp add: m' nth_list_update)
  show "refs_ok m'"
    using ok set_list_pop_subset[of j "memory_map m"] unfolding refs_ok_def
    by (auto simp: m' distinct_list_pop)
  have free_eq: "\<forall>q \<in> set (memory_map m). is_free (blk m' q) = is_free (blk m q)"
  proof
    fix q assume "q \<in> set (memory_map m)"
    then have "q < length (heap m)" using ok by (auto simp: refs_ok_def)
    then show "is_free (blk m' q) = is_free (blk m q)"
      using nth_old[of q] fc b' by (auto simp: blk_def)
  qed
  have "filter (\<lambda>q. \<not> is_free (blk m' q)) (memory_map m) = owned_refs m"
    unfolding owned_refs_def by (rule owned_refs_cong[OF free_eq])
  moreover have "is_free (blk m' (memory_map m ! j))"
    using free_eq j fj by (simp add: blk_def)
  ultimately have own: "owned_refs m' = owned_refs m"
    using filter_list_pop[of j "memory_map m" "\<lambda>q. \<not> is_free (blk m' q)"] j
    by (simp add: owned_refs_def m' blk_def)
  have nonfree: "\<forall>q < length (heap m'). \<not> is_free (heap m' ! q) \<longrightarrow>
      q < length (heap m) \<and> heap m' ! q = heap m ! q"
  proof (intro allI impI)
    fix q assume q: "q < length (heap m')" and nf: "\<not> is_free (heap m' ! q)"
    have ql: "q < length (heap m)" using q len by simp
    have "q \<noteq> c" using nf nth_old[OF ql] b' by auto
    then show "q < length (heap m) \<and> heap m' ! q = heap m ! q"
      using nth_old[OF ql] ql by simp
  qed
  have frees: "\<forall>q < length (heap m). is_free (heap m ! q) \<longrightarrow> is_free (heap m' ! q)"
  proof (intro allI impI)
    fix q assume q: "q < length (heap m)" and f: "is_free (heap m ! q)"
    show "is_free (heap m' ! q)" using nth_old[OF q] b' f by simp
  qed
  have sb: "same_books m m'" by (simp add: same_books_def m')
  have le: "length (heap m) \<le> length (heap m')" using len by simp
  show "only_free_changed m m'"
    unfolding only_free_changed_def using sb le nonfree frees own by (intro conjI)
qed

subsection \<open>Splitting and coalescing\<close>

lemma split_frame:
  assumes run: "split_buddy_block m0 i0 r0 t0 = Some m1"
  shows "refs_ok m0 \<and> i0 < length (memory_map m0) \<and> memory_map m0 ! i0 = r0 \<and> is_free (blk m0 r0) \<longrightarrow>
   refs_ok m1 \<and> only_free_changed m0 m1 \<and> i0 < length (memory_map m1) \<and>
   memory_map m1 ! i0 = r0 \<and> is_free (blk m1 r0)"
proof (rule split_buddy_block.raw_induct[where P = "\<lambda>m i r t y.
   refs_ok m \<and> i < length (memory_map m) \<and> memory_map m ! i = r \<and> is_free (blk m r) \<longrightarrow>
   refs_ok y \<and> only_free_changed m y \<and> i < length (memory_map y) \<and>
   memory_map y ! i = r \<and> is_free (blk y r)", OF _ run])
  fix split :: "manager \<Rightarrow> nat \<Rightarrow> nat \<Rightarrow> int \<Rightarrow> manager option" and m i r t ma
  assume IH: "\<And>m i r t y. split m i r t = Some y \<Longrightarrow>
     refs_ok m \<and> i < length (memory_map m) \<and> memory_map m ! i = r \<and> is_free (blk m r) \<longrightarrow>
     refs_ok y \<and> only_free_changed m y \<and> i < length (memory_map y) \<and>
     memory_map y ! i = r \<and> is_free (blk y r)"
  assume eq: "(if t < bsize (blk m r)
         then let b = blk m r; new_size = bsize b div 2;
                  new_block = MemoryBlock (start b + new_size) new_size ''FREE''
              in split
                  (m\<lparr>heap := (heap m)[r := b\<lparr>bsize := new_size, bend := start b + new_size - 1\<rparr>] @ [new_block],
                       memory_map := list_insert (i + 1) (length (heap m)) (memory_map m)\<rparr>)
                  i r t
         else Some m) = Some ma"
  show "refs_ok m \<and> i < length (memory_map m) \<and> memory_map m ! i = r \<and> is_free (blk m r) \<longrightarrow>
     refs_ok ma \<and> only_free_changed m ma \<and> i < length (memory_map ma) \<and>
     memory_map ma ! i = r \<and> is_free (blk ma r)"
  proof (intro impI)
    assume pre: "refs_ok m \<and> i < length (memory_map m) \<and> memory_map m ! i = r \<and> is_free (blk m r)"
    then have ok: "refs_ok m" and i: "i < length (memory_map m)" and ri: "memory_map m ! i = r"
      and fr: "is_free (blk m r)" by simp_all
    have rl: "r < length (heap m)" using ok i ri by (auto simp: refs_ok_def)
    show "refs_ok ma \<and> only_free_changed m ma \<and> i < length (memory_map ma) \<and>
          memory_map ma ! i = r \<and> is_free (blk ma r)"
    proof (cases "bsize (blk m r) > t")
      case False
      then have "ma = m" using eq by simp
      then show ?thesis using pre by (simp add: only_free_changed_refl)
    next
      case True
      define b' where "b' = (blk m r)\<lparr>bsize := bsize (blk m r) div 2,
                                      bend := start (blk m r) + bsize (blk m r) div 2 - 1\<rparr>"
      define nb where "nb = MemoryBlock (start (blk m r) + bsize (blk m r) div 2)
                               (bsize (blk m r) div 2) ''FREE''"
      define m' where "m' = m\<lparr>heap := (heap m)[r := b'] @ [nb],
                      memory_map := list_insert (i + 1) (length (heap m)) (memory_map m)\<rparr>"
      have call: "split m' i r t = Some ma"
        using eq True by (simp add: Let_def m'_def b'_def nb_def)
      have fb: "is_free b'" using fr by (simp add: b'_def is_free_def)
      have fn: "is_free nb" by (simp add: nb_def is_free_def MemoryBlock_def)
      have fr': "is_free (heap m ! r)" using fr by (simp add: blk_def)
      have ok': "refs_ok m'" and fc: "only_free_changed m m'"
        using free_insert_frame[OF ok rl fr' fb fn m'_def] by simp_all
      have i': "i < length (memory_map m')" using i by (simp add: m'_def)
      have ri': "memory_map m' ! i = r"
        using i ri by (simp add: m'_def nth_list_insert_before)
      have fr2: "is_free (blk m' r)"
        using rl fb by (simp add: m'_def blk_def nth_append)
      from IH[OF call] ok' i' ri' fr2
      have post: "refs_ok ma \<and> only_free_changed m' ma \<and> i < length (memory_map ma) \<and>
          memory_map ma ! i = r \<and> is_free (blk ma r)" by simp
      then show ?thesis using only_free_changed_trans[OF fc] by simp
    qed
  qed
qed

lemma split_terminates:
  assumes "r < length (heap m)" and "1 \<le> t"
  shows "\<exists>m1. split_buddy_block m i r t = Some m1"
  using assms(1)
proof (induction "nat (bsize (blk m r))" arbitrary: m rule: less_induct)
  case less
  show ?case
  proof (cases "bsize (blk m r) > t")
    case False
    then show ?thesis by (simp add: split_buddy_block.simps[of m i r t])
  next
    case True
    define m' where "m' = m\<lparr>heap := (heap m)[r := (blk m r)\<lparr>bsize := bsize (blk m r) div 2,
                                      bend := start (blk m r) + bsize (blk m r) div 2 - 1\<rparr>]
                  @ [MemoryBlock (start (blk m r) + bsize (blk m r) div 2)
                               (bsize (blk m r) div 2) ''FREE''],
                      memory_map := list_insert (i + 1) (length (heap m)) (memory_map m)\<rparr>"
    have sz: "bsize (blk m' r) = bsize (blk m r) div 2"
      using less.prems by (simp add: m'_def blk_def nth_append)
    have "nat (bsize (blk m' r)) < nat (bsize (blk m r))"
      using True assms(2) sz by simp
    moreover have "r < length (heap m')" using less.prems by (simp add: m'_def)
    ultimately obtain m1 where "split_buddy_block m' i r t = Some m1"
      using less.hyps by blast
    then show ?thesis
      using True by (simp add: split_buddy_block.simps[of m i r t] Let_def m'_def)
  qed
qed

lemma merge_frame:
  "refs_ok m \<Longrightarrow> refs_ok (merge_loop m i) \<and> only_free_changed m (merge_loop m i)"
proof (induction m i rule: merge_loop.induct)
  case (1 m i)
  note ok = "1.prems"
  show ?case
  proof (cases "i + 1 < length (memory_map m)")
    case False
    then show ?thesis using ok by (simp add: merge_loop.simps[of m i] only_free_changed_refl)
  next
    case True
    define c where "c = memory_map m ! i"
    define n where "n = memory_map m ! (i + 1)"
    show ?thesis
    proof (cases "is_free (blk m c) \<and> is_free (blk m n)")
      case False
      have nb: "\<not> (is_free (blk m (memory_map m ! i)) \<and> is_free (blk m (memory_map m ! (i + 1))))"
        using False unfolding c_def n_def .
      have e: "merge_loop m i = merge_loop m (i + 1)"
        by (subst merge_loop.simps) (simp only: Let_def True nb simp_thms if_True if_False)
      from "1.IH"(2)[OF True refl refl nb ok] e show ?thesis by simp
    next
      case both: True
      define sz where "sz = bsize (blk m c) + bsize (blk m n)"
      define b' where "b' = (blk m c)\<lparr>bsize := sz, bend := start (blk m c) + sz - 1\<rparr>"
      define m' where "m' = m\<lparr>heap := (heap m)[c := b'],
                               memory_map := list_pop (i + 1) (memory_map m)\<rparr>"
      have both': "is_free (blk m (memory_map m ! i)) \<and> is_free (blk m (memory_map m ! (i + 1)))"
        using both unfolding c_def n_def .
      have e: "merge_loop m i = merge_loop m' i"
        by (subst merge_loop.simps)
           (simp only: Let_def True both' simp_thms if_True m'_def b'_def sz_def c_def n_def)
      have cl: "c < length (heap m)" using ok True by (auto simp: refs_ok_def c_def)
      have fc: "is_free (heap m ! c)" using both by (simp add: blk_def)
      have fb: "is_free b'" using both by (simp add: b'_def is_free_def)
      have fj: "is_free (heap m ! (memory_map m ! (i + 1)))" using both by (simp add: blk_def n_def)
      have ok': "refs_ok m'" and f1: "only_free_changed m m'"
        using free_pop_frame[OF ok cl fc fb True fj m'_def] by simp_all
      have "refs_ok (merge_loop m' i) \<and> only_free_changed m' (merge_loop m' i)"
        using "1.IH"(1)[OF True refl refl both' refl] ok'
        by (simp add: m'_def b'_def sz_def c_def n_def)
      then show ?thesis using e only_free_changed_trans[OF f1] by simp
    qed
  qed
qed

subsection \<open>Committing a block: shape of the result\<close>

lemma owned_total_alt:
  "owned_total m = sum_list (map (\<lambda>q. if is_free (blk m q) then 0 else bsize (blk m q)) (memory_map m))"
proof -
  have "\<And>xs. sum_list (map bsize (filter (\<lambda>b. \<not> is_free b) (map (blk m) xs))) =
        sum_list (map (\<lambda>q. if is_free (blk m q) then 0 else bsize (blk m q)) xs)"
  proof -
    fix xs show "sum_list (map bsize (filter (\<lambda>b. \<not> is_free b) (map (blk m) xs))) =
        sum_list (map (\<lambda>q. if is_free (blk m q) then 0 else bsize (blk m q)) xs)"
      by (induction xs) simp_all
  qed
  then show ?thesis by (simp only: owned_total_def ledger_def)
qed

lemma sum_point:
  "distinct xs \<Longrightarrow> r \<in> set xs \<Longrightarrow> (\<And>x. x \<in> set xs \<Longrightarrow> x \<noteq> r \<Longrightarrow> g x = f x) \<Longrightarrow>
   sum_list (map g xs) = sum_list (map f xs) - f r + (g r :: int)"
proof (induction xs)
  case Nil
  then show ?case by simp
next
  case (Cons a xs)
  show ?case
  proof (cases "a = r")
    case True
    then have "r \<notin> set xs" using Cons.prems(1) by simp
    then have "\<And>x. x \<in> set xs \<Longrightarrow> g x = f x" using Cons.prems(3) by auto
    then have "map g xs = map f xs" by simp
    then have "sum_list (map g xs) = sum_list (map f xs)" by (simp only:)
    then show ?thesis using True by simp
  next
    case False
    have "distinct xs" using Cons.prems(1) by simp
    moreover have "r \<in> set xs" using False Cons.prems(2) by simp
    moreover have "\<And>x. x \<in> set xs \<Longrightarrow> x \<noteq> r \<Longrightarrow> g x = f x" using Cons.prems(3) by simp
    ultimately have "sum_list (map g xs) = sum_list (map f xs) - f r + g r"
      by (rule Cons.IH)
    moreover have "g a = f a" using Cons.prems(3)[of a] False by simp
    ultimately show ?thesis by simp
  qed
qed

text \<open>The shape of the manager that \<open>_allocate_block\<close> returns.\<close>

lemma commit_shape:
  assumes r: "r < length (heap m)" and m': "m' = fst (allocate_block m now i r p)"
  shows "snd (allocate_block m now i r p) = (True, start (blk m r))"
    and "available_memory m' = available_memory m - psize p"
    and "total_memory m' = total_memory m"
    and "allocated_processes m' = AList.update (pid p) r (allocated_processes m)"
    and "next_fit_start m' = next_fit_start m"
    and "\<And>q. q < length (heap m) \<Longrightarrow> q \<noteq> r \<Longrightarrow> heap m' ! q = heap m ! q"
    and "bsize (heap m' ! r) = psize p" and "bpid (heap m' ! r) = pid p"
    and "(memory_map m' = memory_map m \<and> length (heap m') = length (heap m)) \<or>
         (memory_map m' = list_insert (i + 1) (length (heap m)) (memory_map m) \<and>
          length (heap m') = Suc (length (heap m)) \<and> is_free (heap m' ! length (heap m)))"
  using r unfolding m'
  by (simp_all add: allocate_block_def Let_def blk_def nth_append is_free_def MemoryBlock_def)

subsection \<open>What the frame preserves\<close>

lemma frame_index_ok:
  assumes f: "only_free_changed m m1" and ok1: "refs_ok m1" and ix: "index_ok m"
  shows "index_ok m1"
  unfolding index_ok_def
proof (intro allI impI)
  fix k r assume "map_of (allocated_processes m1) k = Some r"
  then have e: "map_of (allocated_processes m) k = Some r"
    using f by (simp add: only_free_changed_def same_books_def)
  from ix e have rm: "r \<in> set (memory_map m)" and pk: "bpid (blk m r) = k" and kf: "k \<noteq> ''FREE''"
    unfolding index_ok_def by blast+
  have "r \<in> set (owned_refs m)" using rm pk kf by (simp add: owned_refs_def is_free_def)
  then have "r \<in> set (owned_refs m1)" using f by (simp add: only_free_changed_def)
  then have rm1: "r \<in> set (memory_map m1)" and nf: "\<not> is_free (blk m1 r)"
    by (simp_all add: owned_refs_def)
  have rl: "r < length (heap m1)" using ok1 rm1 by (simp add: refs_ok_def)
  have "heap m1 ! r = heap m ! r"
    using f rl nf unfolding only_free_changed_def blk_def by blast
  then show "r \<in> set (memory_map m1) \<and> bpid (blk m1 r) = k \<and> k \<noteq> ''FREE''"
    using rm1 pk kf by (simp add: blk_def)
qed

lemma frame_owned_total:
  assumes f: "only_free_changed m m1" and ok1: "refs_ok m1"
  shows "owned_total m1 = owned_total m"
proof -
  have own: "owned_refs m1 = owned_refs m" using f by (simp add: only_free_changed_def)
  have same: "\<And>r. r \<in> set (owned_refs m1) \<Longrightarrow> blk m1 r = blk m r"
  proof -
    fix r assume "r \<in> set (owned_refs m1)"
    then have rm1: "r \<in> set (memory_map m1)" and nf: "\<not> is_free (blk m1 r)"
      by (simp_all add: owned_refs_def)
    have rl: "r < length (heap m1)" using ok1 rm1 by (simp add: refs_ok_def)
    show "blk m1 r = blk m r"
      using f rl nf unfolding only_free_changed_def blk_def by blast
  qed
  have a: "\<And>m. owned_total m = sum_list (map (\<lambda>r. bsize (blk m r)) (owned_refs m))"
    by (simp add: owned_total_def ledger_def owned_refs_def filter_map comp_def)
  have "map (\<lambda>r. bsize (blk m1 r)) (owned_refs m1) = map (\<lambda>r. bsize (blk m r)) (owned_refs m1)"
    using same by simp
  then show ?thesis by (simp only: a own)
qed

lemma frame_conserved:
  "only_free_changed m m1 \<Longrightarrow> refs_ok m1 \<Longrightarrow> conserved m \<Longrightarrow> conserved m1"
  using frame_owned_total[of m m1]
  by (simp add: conserved_def only_free_changed_def same_books_def)

lemma frame_logged_ok:
  assumes f: "only_free_changed m m1" and lg: "logged_ok m lg"
  shows "logged_ok m1 lg"
  unfolding logged_ok_def
proof (intro allI impI)
  fix r assume rl: "r < length (heap m1)" and nf: "\<not> is_free (heap m1 ! r)"
  have a: "r < length (heap m) \<and> heap m1 ! r = heap m ! r"
    using f rl nf unfolding only_free_changed_def by blast
  then have "\<not> is_free (heap m ! r)" using nf by simp
  then have "map_option psize (map_of lg r) = Some (bsize (heap m ! r))"
    using lg a unfolding logged_ok_def by blast
  then show "map_option psize (map_of lg r) = Some (bsize (heap m1 ! r))" using a by simp
qed

text \<open>Facts about the manager behind \<open>update_fragmentation\<close>.\<close>

lemma uf_refs_ok [simp]: "refs_ok (update_fragmentation m now) = refs_ok m"
  by (simp add: refs_ok_def)

lemma uf_owned_refs [simp]: "owned_refs (update_fragmentation m now) = owned_refs m"
  by (simp add: owned_refs_def)

lemma uf_index_ok [simp]: "index_ok (update_fragmentation m now) = index_ok m"
  by (simp add: index_ok_def)

lemma uf_owned_total [simp]: "owned_total (update_fragmentation m now) = owned_total m"
  by (simp add: owned_total_def)

lemma uf_conserved [simp]: "conserved (update_fragmentation m now) = conserved m"
  by (simp add: conserved_def)

lemma uf_logged_ok [simp]: "logged_ok (update_fragmentation m now) lg = logged_ok m lg"
  by (simp add: logged_ok_def)

subsection \<open>What a commit preserves\<close>

lemma commit_refs_ok:
  assumes ok: "refs_ok m" and rm: "r \<in> set (memory_map m)"
    and m': "m' = fst (allocate_block m now i r p)"
  shows "refs_ok m'"
proof -
  have rl: "r < length (heap m)" using ok rm by (simp add: refs_ok_def)
  note sh = commit_shape[OF rl m']
  have fresh: "length (heap m) \<notin> set (memory_map m)" using ok by (auto simp: refs_ok_def)
  have le: "length (heap m) \<le> length (heap m')" using sh(9) by auto
  have a0: "\<forall>q \<in> set (memory_map m). q < length (heap m)" using ok by (simp add: refs_ok_def)
  have a: "\<forall>q \<in> set (memory_map m'). q < length (heap m')"
    using sh(9) a0 by (auto simp: less_Suc_eq)
  have b: "\<forall>k q. map_of (allocated_processes m') k = Some q \<longrightarrow> q < length (heap m')"
  proof (intro allI impI)
    fix k q assume "map_of (allocated_processes m') k = Some q"
    then have "((map_of (allocated_processes m))(pid p \<mapsto> r)) k = Some q"
      by (simp only: sh(4) update_conv')
    then have "q = r \<or> map_of (allocated_processes m) k = Some q"
      by (auto split: if_splits)
    then have "q < length (heap m)" using rl ok unfolding refs_ok_def by blast
    then show "q < length (heap m')" using le by simp
  qed
  have c: "distinct (memory_map m')"
    using sh(9) ok fresh by (auto simp: refs_ok_def)
  have d: "distinct (map fst (allocated_processes m'))"
    using ok by (simp add: sh(4) refs_ok_def distinct_update)
  show ?thesis unfolding refs_ok_def using a b c d by (intro conjI)
qed

lemma commit_committed:
  assumes ok: "refs_ok m" and rm: "r \<in> set (memory_map m)"
    and m': "m' = fst (allocate_block m now i r p)"
  shows "map_of (allocated_processes m') (pid p) = Some r" and "r \<in> set (memory_map m')"
    and "bsize (blk m' r) = psize p" and "bpid (blk m' r) = pid p"
    and "available_memory m' = available_memory m - psize p"
proof -
  have rl: "r < length (heap m)" using ok rm by (simp add: refs_ok_def)
  note sh = commit_shape[OF rl m']
  show "map_of (allocated_processes m') (pid p) = Some r"
    by (simp add: sh(4) update_conv')
  show "r \<in> set (memory_map m')" using sh(9) rm by auto
  show "bsize (blk m' r) = psize p" "bpid (blk m' r) = pid p"
    using sh(7,8) by (simp_all add: blk_def)
  show "available_memory m' = available_memory m - psize p" by (rule sh(2))
qed

lemma commit_owned_total:
  assumes ok: "refs_ok m" and rm: "r \<in> set (memory_map m)" and fr: "is_free (blk m r)"
    and m': "m' = fst (allocate_block m now i r p)"
  shows "owned_total m' = owned_total m + (if pid p = ''FREE'' then 0 else psize p)"
proof -
  have rl: "r < length (heap m)" using ok rm by (simp add: refs_ok_def)
  note sh = commit_shape[OF rl m']
  define f where "f = (\<lambda>q. if is_free (blk m q) then 0 else bsize (blk m q))"
  define g where "g = (\<lambda>q. if is_free (blk m' q) then 0 else bsize (blk m' q))"
  have d: "distinct (memory_map m)" using ok by (simp add: refs_ok_def)
  have same: "\<And>x. x \<in> set (memory_map m) \<Longrightarrow> x \<noteq> r \<Longrightarrow> g x = f x"
  proof -
    fix x assume "x \<in> set (memory_map m)" and xr: "x \<noteq> r"
    then have "x < length (heap m)" using ok by (simp add: refs_ok_def)
    from sh(6)[OF this xr] show "g x = f x" by (simp add: g_def f_def blk_def)
  qed
  have pt: "sum_list (map g (memory_map m)) = sum_list (map f (memory_map m)) - f r + g r"
    by (rule sum_point[OF d rm same])
  have fr0: "f r = 0" using fr by (simp add: f_def)
  have gr: "g r = (if pid p = ''FREE'' then 0 else psize p)"
    using sh(7,8) by (simp add: g_def blk_def is_free_def)
  have "sum_list (map g (memory_map m')) = sum_list (map g (memory_map m))"
  proof -
    from sh(9) show ?thesis
    proof
      assume "memory_map m' = memory_map m \<and> length (heap m') = length (heap m)"
      then show ?thesis by simp
    next
      assume a: "memory_map m' = list_insert (i + 1) (length (heap m)) (memory_map m) \<and>
          length (heap m') = Suc (length (heap m)) \<and> is_free (heap m' ! length (heap m))"
      then have "g (length (heap m)) = 0" by (simp add: g_def blk_def)
      then show ?thesis using a by (simp add: sum_list_insert)
    qed
  qed
  then have "owned_total m' = sum_list (map f (memory_map m)) - f r + g r"
    using pt by (simp add: owned_total_alt g_def)
  then show ?thesis using fr0 gr by (simp add: owned_total_alt f_def)
qed

lemma commit_index_ok:
  assumes ok: "refs_ok m" and ix: "index_ok m" and rm: "r \<in> set (memory_map m)"
    and fr: "is_free (blk m r)" and pp: "pid p \<noteq> ''FREE''"
    and m': "m' = fst (allocate_block m now i r p)"
  shows "index_ok m'"
  unfolding index_ok_def
proof (intro allI impI)
  have rl: "r < length (heap m)" using ok rm by (simp add: refs_ok_def)
  note sh = commit_shape[OF rl m']
  note cm = commit_committed[OF ok rm m']
  have sub: "set (memory_map m) \<subseteq> set (memory_map m')" using sh(9) by auto
  fix k q assume "map_of (allocated_processes m') k = Some q"
  then have "((map_of (allocated_processes m))(pid p \<mapsto> r)) k = Some q"
    by (simp only: sh(4) update_conv')
  then consider "k = pid p" "q = r" | "k \<noteq> pid p" "map_of (allocated_processes m) k = Some q"
    by (auto split: if_splits)
  then show "q \<in> set (memory_map m') \<and> bpid (blk m' q) = k \<and> k \<noteq> ''FREE''"
  proof cases
    case 1
    then show ?thesis using cm(2,4) pp by simp
  next
    case 2
    from ix 2(2) have qm: "q \<in> set (memory_map m)" and pk: "bpid (blk m q) = k" and kf: "k \<noteq> ''FREE''"
      unfolding index_ok_def by blast+
    have "q \<noteq> r" using pk kf fr by (auto simp: is_free_def)
    moreover have "q < length (heap m)" using ok qm by (simp add: refs_ok_def)
    ultimately have "heap m' ! q = heap m ! q" using sh(6) by simp
    then show ?thesis using qm sub pk kf by (auto simp: blk_def)
  qed
qed

lemma commit_logged_ok:
  assumes ok: "refs_ok m" and rm: "r \<in> set (memory_map m)" and lg: "logged_ok m lg"
    and m': "m' = fst (allocate_block m now i r p)"
  shows "logged_ok m' (AList.update r p lg)"
  unfolding logged_ok_def
proof (intro allI impI)
  have rl: "r < length (heap m)" using ok rm by (simp add: refs_ok_def)
  note sh = commit_shape[OF rl m']
  fix q assume ql: "q < length (heap m')" and nf: "\<not> is_free (heap m' ! q)"
  have qm: "q < length (heap m)"
    using sh(9) ql nf by (auto simp: less_Suc_eq)
  show "map_option psize (map_of (AList.update r p lg) q) = Some (bsize (heap m' ! q))"
  proof (cases "q = r")
    case True
    then show ?thesis using sh(7) by (simp add: update_conv')
  next
    case False
    from sh(6)[OF qm False] have e: "heap m' ! q = heap m ! q" .
    then have "\<not> is_free (heap m ! q)" using nf by simp
    then have "map_option psize (map_of lg q) = Some (bsize (heap m ! q))"
      using lg qm unfolding logged_ok_def by blast
    then show ?thesis using False e by (simp add: update_conv')
  qed
qed

subsection \<open>What a release preserves\<close>

text \<open>The manager of \<open>deallocate\<close> before the coalescing sweep.\<close>

lemma release_step:
  assumes ok: "refs_ok m" and e: "map_of (allocated_processes m) k = Some r"
    and m1: "m1 = m\<lparr>heap := (heap m)[r := (blk m r)\<lparr>bpid := ''FREE''\<rparr>],
                     available_memory := available_memory m + bsize (blk m r),
                     allocated_processes := AList.delete k (allocated_processes m)\<rparr>"
  shows "refs_ok m1"
    and "index_ok m \<Longrightarrow> index_ok m1"
    and "index_ok m \<Longrightarrow> conserved m \<Longrightarrow> conserved m1"
    and "logged_ok m lg \<Longrightarrow> logged_ok m1 lg"
proof -
  have rl: "r < length (heap m)" using ok e unfolding refs_ok_def by blast
  have nth: "\<And>q. q < length (heap m) \<Longrightarrow>
      heap m1 ! q = (if q = r then (blk m r)\<lparr>bpid := ''FREE''\<rparr> else heap m ! q)"
    by (simp add: m1 nth_list_update)
  have mo: "map_of (allocated_processes m1) = (map_of (allocated_processes m))(k := None)"
    by (simp add: m1 delete_conv')
  show ok1: "refs_ok m1"
  proof -
    have a: "\<forall>q \<in> set (memory_map m1). q < length (heap m1)"
      using ok by (simp add: refs_ok_def m1)
    have b: "\<forall>k q. map_of (allocated_processes m1) k = Some q \<longrightarrow> q < length (heap m1)"
    proof (intro allI impI)
      fix k' q assume "map_of (allocated_processes m1) k' = Some q"
      then have "map_of (allocated_processes m) k' = Some q"
        by (simp add: mo split: if_splits)
      then have "q < length (heap m)" using ok unfolding refs_ok_def by blast
      then show "q < length (heap m1)" by (simp add: m1)
    qed
    have c: "distinct (memory_map m1)" using ok by (simp add: refs_ok_def m1)
    have d: "distinct (map fst (allocated_processes m1))"
      using ok by (simp add: refs_ok_def m1 distinct_delete)
    show ?thesis unfolding refs_ok_def using a b c d by (intro conjI)
  qed
  show "index_ok m1" if ix: "index_ok m"
    unfolding index_ok_def
  proof (intro allI impI)
    from ix e have pk: "bpid (blk m r) = k" unfolding index_ok_def by blast
    fix k' q assume a: "map_of (allocated_processes m1) k' = Some q"
    then have kk: "k' \<noteq> k" and e': "map_of (allocated_processes m) k' = Some q"
      by (simp_all add: mo split: if_splits)
    from ix e' have qm: "q \<in> set (memory_map m)" and pk': "bpid (blk m q) = k'" and kf: "k' \<noteq> ''FREE''"
      unfolding index_ok_def by blast+
    have qr: "q \<noteq> r" using pk pk' kk by auto
    have "q < length (heap m)" using ok qm by (simp add: refs_ok_def)
    from nth[OF this] qr have "heap m1 ! q = heap m ! q" by simp
    then show "q \<in> set (memory_map m1) \<and> bpid (blk m1 q) = k' \<and> k' \<noteq> ''FREE''"
      using qm pk' kf by (simp add: blk_def m1)
  qed
  show "conserved m1" if ix: "index_ok m" and co: "conserved m"
  proof -
    from ix e have rm: "r \<in> set (memory_map m)" and pk: "bpid (blk m r) = k" and kf: "k \<noteq> ''FREE''"
      unfolding index_ok_def by blast+
    define f where "f = (\<lambda>q. if is_free (blk m q) then 0 else bsize (blk m q))"
    define g where "g = (\<lambda>q. if is_free (blk m1 q) then 0 else bsize (blk m1 q))"
    have d: "distinct (memory_map m)" using ok by (simp add: refs_ok_def)
    have same: "\<And>x. x \<in> set (memory_map m) \<Longrightarrow> x \<noteq> r \<Longrightarrow> g x = f x"
    proof -
      fix x assume "x \<in> set (memory_map m)" and xr: "x \<noteq> r"
      then have "x < length (heap m)" using ok by (simp add: refs_ok_def)
      from nth[OF this] xr show "g x = f x" by (simp add: g_def f_def blk_def)
    qed
    have pt: "sum_list (map g (memory_map m)) = sum_list (map f (memory_map m)) - f r + g r"
      by (rule sum_point[OF d rm same])
    have fr: "f r = bsize (blk m r)" using pk kf by (simp add: f_def is_free_def)
    have gr: "g r = 0" using nth[OF rl] by (simp add: g_def blk_def is_free_def)
    have mm: "memory_map m1 = memory_map m" by (simp add: m1)
    have "owned_total m1 = sum_list (map g (memory_map m))"
      by (simp only: owned_total_alt g_def mm)
    then have "owned_total m1 = owned_total m - bsize (blk m r)"
      using pt fr gr by (simp add: owned_total_alt f_def)
    then show ?thesis using co by (simp add: conserved_def m1)
  qed
  show "logged_ok m1 lg" if lg: "logged_ok m lg"
    unfolding logged_ok_def
  proof (intro allI impI)
    fix q assume ql: "q < length (heap m1)" and nf: "\<not> is_free (heap m1 ! q)"
    have qm: "q < length (heap m)" using ql by (simp add: m1)
    have qr: "q \<noteq> r" using nf nth[OF qm] by (auto simp: is_free_def)
    then have e: "heap m1 ! q = heap m ! q" using nth[OF qm] by simp
    then have "\<not> is_free (heap m ! q)" using nf by simp
    then have "map_option psize (map_of lg q) = Some (bsize (heap m ! q))"
      using lg qm unfolding logged_ok_def by blast
    then show "map_option psize (map_of lg q) = Some (bsize (heap m1 ! q))" using e by simp
  qed
qed

lemma deallocate_unfold:
  assumes e: "map_of (allocated_processes m) k = Some r"
  shows "fst (deallocate m now k) =
     update_fragmentation (merge_loop (m\<lparr>heap := (heap m)[r := (blk m r)\<lparr>bpid := ''FREE''\<rparr>],
                     available_memory := available_memory m + bsize (blk m r),
                     allocated_processes := AList.delete k (allocated_processes m)\<rparr>) 0) now"
  using e by (simp add: deallocate_def Let_def merge_free_blocks_def)

lemma deallocate_absent:
  "map_of (allocated_processes m) k = None \<Longrightarrow> deallocate m now k = (m, False)"
  by (simp add: deallocate_def)

lemma deallocate_inv:
  assumes ok: "refs_ok m"
  shows "refs_ok (fst (deallocate m now k))"
    and "index_ok m \<Longrightarrow> index_ok (fst (deallocate m now k))"
    and "index_ok m \<Longrightarrow> conserved m \<Longrightarrow> conserved (fst (deallocate m now k))"
    and "logged_ok m lg \<Longrightarrow> logged_ok (fst (deallocate m now k)) lg"
proof -
  show "refs_ok (fst (deallocate m now k))"
  proof (cases "map_of (allocated_processes m) k")
    case None
    then show ?thesis using ok by (simp add: deallocate_absent)
  next
    case (Some r)
    note rs = release_step[OF ok Some refl]
    show ?thesis using merge_frame[OF rs(1), of 0] by (simp add: deallocate_unfold[OF Some])
  qed
  show "index_ok (fst (deallocate m now k))" if ix: "index_ok m"
  proof (cases "map_of (allocated_processes m) k")
    case None
    then show ?thesis using ix by (simp add: deallocate_absent)
  next
    case (Some r)
    note rs = release_step[OF ok Some refl]
    from merge_frame[OF rs(1), of 0] frame_index_ok rs(2)[OF ix]
    show ?thesis by (simp add: deallocate_unfold[OF Some]) blast
  qed
  show "conserved (fst (deallocate m now k))" if ix: "index_ok m" and co: "conserved m"
  proof (cases "map_of (allocated_processes m) k")
    case None
    then show ?thesis using co by (simp add: deallocate_absent)
  next
    case (Some r)
    note rs = release_step[OF ok Some refl]
    from merge_frame[OF rs(1), of 0] frame_conserved rs(3)[OF ix co]
    show ?thesis by (simp add: deallocate_unfold[OF Some]) blast
  qed
  show "logged_ok (fst (deallocate m now k)) lg" if lg: "logged_ok m lg"
  proof (cases "map_of (allocated_processes m) k")
    case None
    then show ?thesis using lg by (simp add: deallocate_absent)
  next
    case (Some r)
    note rs = release_step[OF ok Some refl]
    from merge_frame[OF rs(1), of 0] frame_logged_ok rs(4)[OF lg]
    show ?thesis by (simp add: deallocate_unfold[OF Some]) blast
  qed
qed

subsection \<open>The strategies\<close>

lemma fits_free: "fits m p i \<Longrightarrow> is_free (blk m (memory_map m ! i))"
  by (simp add: fits_def Let_def)

lemma find_upt_Some:
  assumes "find P [0..<n] = Some i"
  shows "i < n" and "P i"
proof -
  from assms obtain j where j: "j < length [0..<n]" "P ([0..<n] ! j)" "i = [0..<n] ! j"
    unfolding find_Some_iff by blast
  then show "i < n" "P i" by simp_all
qed

lemma fold_select:
  assumes step: "\<And>x acc. fst (F x acc) = fst acc \<or> (fst (F x acc) = Some x \<and> Q x)"
  shows "fst (fold F xs acc) = Some i \<Longrightarrow> fst acc = Some i \<or> (i \<in> set xs \<and> Q i)"
proof (induction xs arbitrary: acc)
  case Nil
  then show ?case by simp
next
  case (Cons x xs)
  from Cons.prems have "fst (fold F xs (F x acc)) = Some i" by simp
  from Cons.IH[OF this] have "fst (F x acc) = Some i \<or> (i \<in> set xs \<and> Q i)" .
  then show ?case using step[of x acc] by auto
qed

lemma best_fit_scan_Some:
  assumes "fst (best_fit_scan m p) = Some i"
  shows "i < length (memory_map m)" and "fits m p i"
proof -
  have "fst (None :: nat option, None :: int option) = Some i \<or>
        (i \<in> set [0..<length (memory_map m)] \<and> fits m p i)"
    by (rule fold_select[where Q = "fits m p", OF _ assms[unfolded best_fit_scan_def]])
       (auto simp: Let_def split: prod.splits option.splits)
  then show "i < length (memory_map m)" "fits m p i" by simp_all
qed

lemma worst_fit_scan_Some:
  assumes "fst (worst_fit_scan m p) = Some i"
  shows "i < length (memory_map m)" and "fits m p i"
proof -
  have "fst (None :: nat option, - 1 :: int) = Some i \<or>
        (i \<in> set [0..<length (memory_map m)] \<and> fits m p i)"
    by (rule fold_select[where Q = "fits m p", OF _ assms[unfolded worst_fit_scan_def]])
       (auto simp: Let_def split: prod.splits)
  then show "i < length (memory_map m)" "fits m p i" by simp_all
qed

lemma cursor_frame:
  "refs_ok m \<Longrightarrow> refs_ok (m\<lparr>next_fit_start := c\<rparr>)"
  "only_free_changed m (m\<lparr>next_fit_start := c\<rparr>)"
  by (simp_all add: refs_ok_def only_free_changed_def same_books_def owned_refs_def blk_def)

lemma next_power_of_two_pos: "1 \<le> next_power_of_two n"
  by (simp add: next_power_of_two_def)

text \<open>
  Every strategy either fails and leaves the manager as it is, or commits a FREE block
  of a manager that differs from the given one in FREE blocks and the cursor only.
\<close>

lemma allocate_cases:
  assumes ok: "refs_ok m" and a: "allocate a m now p = Some res"
  shows "res = (m, False, -1) \<or>
    (\<exists>m1 i. refs_ok m1 \<and> only_free_changed m m1 \<and> i < length (memory_map m1) \<and>
       is_free (blk m1 (memory_map m1 ! i)) \<and>
       (a \<noteq> BUDDY_SYSTEM \<longrightarrow> heap m1 = heap m \<and> memory_map m1 = memory_map m) \<and>
       res = allocate_block m1 now i (memory_map m1 ! i) p)"
proof (cases a)
  case FIRST_FIT
  show ?thesis
  proof (cases "find (fits m p) [0..<length (memory_map m)]")
    case None
    then show ?thesis using a FIRST_FIT by (simp add: first_fit_def)
  next
    case (Some i)
    from find_upt_Some[OF Some] fits_free have "i < length (memory_map m)"
      "is_free (blk m (memory_map m ! i))" by simp_all
    moreover have "res = allocate_block m now i (memory_map m ! i) p"
      using a FIRST_FIT Some by (simp add: first_fit_def)
    ultimately show ?thesis using ok only_free_changed_refl by blast
  qed
next
  case BEST_FIT
  show ?thesis
  proof (cases "fst (best_fit_scan m p)")
    case None
    then show ?thesis using a BEST_FIT by (simp add: best_fit_def)
  next
    case (Some i)
    from best_fit_scan_Some[OF Some] fits_free have "i < length (memory_map m)"
      "is_free (blk m (memory_map m ! i))" by simp_all
    moreover have "res = allocate_block m now i (memory_map m ! i) p"
      using a BEST_FIT Some by (simp add: best_fit_def)
    ultimately show ?thesis using ok only_free_changed_refl by blast
  qed
next
  case WORST_FIT
  show ?thesis
  proof (cases "fst (worst_fit_scan m p)")
    case None
    then show ?thesis using a WORST_FIT by (simp add: worst_fit_def)
  next
    case (Some i)
    from worst_fit_scan_Some[OF Some] fits_free have "i < length (memory_map m)"
      "is_free (blk m (memory_map m ! i))" by simp_all
    moreover have "res = allocate_block m now i (memory_map m ! i) p"
      using a WORST_FIT Some by (simp add: worst_fit_def)
    ultimately show ?thesis using ok only_free_changed_refl by blast
  qed
next
  case NEXT_FIT
  define n where "n = length (memory_map m)"
  show ?thesis
  proof (cases "find (\<lambda>i. fits m p ((next_fit_start m + i) mod n)) [0..<n]")
    case None
    then show ?thesis using a NEXT_FIT by (simp add: next_fit_def n_def Let_def)
  next
    case (Some i)
    define idx where "idx = (next_fit_start m + i) mod n"
    define m1 where "m1 = m\<lparr>next_fit_start := (idx + 1) mod n\<rparr>"
    from find_upt_Some[OF Some] have i: "i < n" and f: "fits m p idx" by (simp_all add: idx_def)
    have "0 < n" using i by simp
    then have "idx < n" unfolding idx_def by (rule mod_less_divisor)
    then have il: "idx < length (memory_map m1)" by (simp add: n_def m1_def)
    have fr: "is_free (blk m1 (memory_map m1 ! idx))"
      using fits_free[OF f] by (simp add: m1_def blk_def)
    have r: "res = allocate_block m1 now idx (memory_map m1 ! idx) p"
      using a NEXT_FIT Some by (simp add: next_fit_def n_def[symmetric] Let_def idx_def m1_def)
    have "refs_ok m1" "only_free_changed m m1"
      using ok cursor_frame by (simp_all add: m1_def)
    moreover have "heap m1 = heap m \<and> memory_map m1 = memory_map m" by (simp add: m1_def)
    ultimately show ?thesis using il fr r by blast
  qed
next
  case BUDDY_SYSTEM
  define need where "need = next_power_of_two (psize p)"
  define P where "P = (\<lambda>i. let b = blk m (memory_map m ! i)
                        in is_free b \<and> (bsize b = need \<or> bsize b > need))"
  have b: "buddy_system m now p = Some res" using a BUDDY_SYSTEM by simp
  show ?thesis
  proof (cases "find P [0..<length (memory_map m)]")
    case None
    then show ?thesis using b by (simp add: buddy_system_def need_def[symmetric] P_def[symmetric])
  next
    case (Some i)
    from find_upt_Some[OF Some] have i: "i < length (memory_map m)"
      and fr: "is_free (blk m (memory_map m ! i))" by (simp_all add: P_def Let_def)
    show ?thesis
    proof (cases "bsize (blk m (memory_map m ! i)) = need")
      case True
      then have "res = allocate_block m now i (memory_map m ! i) p"
        using b Some by (simp add: buddy_system_def need_def[symmetric] P_def[symmetric])
      then show ?thesis using ok only_free_changed_refl i fr BUDDY_SYSTEM by blast
    next
      case False
      then obtain m1 where sp: "split_buddy_block m i (memory_map m ! i) need = Some m1"
        and r: "res = allocate_block m1 now i (memory_map m1 ! i) p"
        using b Some
        by (auto simp: buddy_system_def need_def[symmetric] P_def[symmetric] split: option.splits)
      from split_frame[OF sp] ok i fr
      have "refs_ok m1 \<and> only_free_changed m m1 \<and> i < length (memory_map m1) \<and>
            memory_map m1 ! i = memory_map m ! i \<and> is_free (blk m1 (memory_map m ! i))" by simp
      then have "refs_ok m1 \<and> only_free_changed m m1 \<and> i < length (memory_map m1) \<and>
            is_free (blk m1 (memory_map m1 ! i)) \<and>
            res = allocate_block m1 now i (memory_map m1 ! i) p" using r by simp
      then show ?thesis using BUDDY_SYSTEM by blast
    qed
  qed
qed

lemma allocate_total:
  assumes ok: "refs_ok m"
  shows "allocate a m now p \<noteq> None"
proof (cases a)
  case BUDDY_SYSTEM
  define need where "need = next_power_of_two (psize p)"
  define P where "P = (\<lambda>i. let b = blk m (memory_map m ! i)
                        in is_free b \<and> (bsize b = need \<or> bsize b > need))"
  show ?thesis
  proof (cases "find P [0..<length (memory_map m)]")
    case None
    then show ?thesis using BUDDY_SYSTEM
      by (simp add: buddy_system_def need_def[symmetric] P_def[symmetric] del: not_None_eq)
  next
    case (Some i)
    from find_upt_Some[OF Some] have i: "i < length (memory_map m)" by simp
    then have "memory_map m ! i < length (heap m)" using ok by (simp add: refs_ok_def)
    from split_terminates[where t = "next_power_of_two (psize p)" and i = i, OF this next_power_of_two_pos]
    obtain m1 where "split_buddy_block m i (memory_map m ! i) need = Some m1"
      by (auto simp: need_def)
    then show ?thesis using BUDDY_SYSTEM Some
      by (simp add: buddy_system_def need_def[symmetric] P_def[symmetric] del: not_None_eq)
  qed
qed simp_all

subsection \<open>Snapshots and allocation calls\<close>

lemma sum_list_zero: "(\<And>x. x \<in> set xs \<Longrightarrow> f x = (0::int)) \<Longrightarrow> sum_list (map f xs) = 0"
  by (induction xs) simp_all

lemma get_process_by_pid_defined:
  assumes "(k, r) \<in> set (allocated_processes m)"
  shows "get_process_by_pid m now k \<noteq> None"
proof -
  have "k \<in> fst ` set (allocated_processes m)" using assms by force
  then have "map_of (allocated_processes m) k \<noteq> None" by (simp add: map_of_eq_None_iff)
  then show ?thesis by (auto simp: get_process_by_pid_def)
qed

lemma internal_frag_zero:
  assumes "distinct (map fst (allocated_processes m))"
  shows "internal_frag m now = 0"
  unfolding internal_frag_def
proof (rule sum_list_zero)
  fix x assume x: "x \<in> set (allocated_processes m)"
  obtain k r where kr: "x = (k, r)" by (cases x)
  have "map_of (allocated_processes m) k = Some r"
    using assms x kr by simp
  then show "(case x of (p, r) \<Rightarrow>
          case get_process_by_pid m now p of None \<Rightarrow> 0
          | Some pr \<Rightarrow> if psize pr < bsize (blk m r) then bsize (blk m r) - psize pr else 0) = 0"
    by (simp add: kr get_process_by_pid_def Process_def)
qed

lemma spec_frag_zero:
  assumes ok: "refs_ok m" and lg: "logged_ok m lg"
  shows "internal_fragmentation_spec m lg = 0"
  unfolding internal_fragmentation_spec_def
proof (rule sum_list_zero)
  fix r assume "r \<in> set (owned_refs m)"
  then have rm: "r \<in> set (memory_map m)" and nf: "\<not> is_free (blk m r)"
    by (simp_all add: owned_refs_def)
  have rl: "r < length (heap m)" using ok rm by (simp add: refs_ok_def)
  have "map_option psize (map_of lg r) = Some (bsize (heap m ! r))"
    using lg rl nf unfolding logged_ok_def blk_def by blast
  then show "(case map_of lg r of None \<Rightarrow> 0
          | Some p \<Rightarrow> if psize p < bsize (blk m r) then bsize (blk m r) - psize p else 0) = 0"
    by (auto simp: blk_def split: option.splits)
qed

lemma uf_hist_ok:
  assumes "refs_ok m" and "fragmentation_history m = [] \<or> hist_ok m"
  shows "hist_ok (update_fragmentation m now)"
proof -
  have "internal_frag m now = 0" using assms(1) by (simp add: refs_ok_def internal_frag_zero)
  then show ?thesis using assms(2)
    by (auto simp: hist_ok_def update_fragmentation_def Let_def)
qed

lemma frame_hist_ok: "only_free_changed m m1 \<Longrightarrow> hist_ok m \<Longrightarrow> hist_ok m1"
  by (simp add: only_free_changed_def same_books_def hist_ok_def)

lemma allocate_block_as_uf:
  "\<exists>X. fst (allocate_block m now i r p) = update_fragmentation X now \<and>
       fragmentation_history X = fragmentation_history m"
  by (cases "bsize (blk m r) = psize p")
     (simp_all add: allocate_block_def Let_def, (rule exI, rule conjI, rule refl, simp)+)

lemma commit_hist_ok:
  assumes ok: "refs_ok m" and rm: "r \<in> set (memory_map m)" and h: "hist_ok m"
    and m': "m' = fst (allocate_block m now i r p)"
  shows "hist_ok m'"
proof -
  obtain X where X: "m' = update_fragmentation X now"
    and hX: "fragmentation_history X = fragmentation_history m"
    using allocate_block_as_uf[of m now i r p] m' by auto
  have "refs_ok m'" by (rule commit_refs_ok[OF ok rm m'])
  then have "refs_ok X" by (simp add: X)
  moreover have "hist_ok X" using h hX by (simp add: hist_ok_def)
  ultimately show ?thesis unfolding X by (intro uf_hist_ok) simp_all
qed

lemma deallocate_hist_ok:
  assumes ok: "refs_ok m" and h: "hist_ok m"
  shows "hist_ok (fst (deallocate m now k))"
proof (cases "map_of (allocated_processes m) k")
  case None
  then show ?thesis using h by (simp add: deallocate_absent)
next
  case (Some r)
  note rs = release_step[OF ok Some refl]
  define m1 where "m1 = m\<lparr>heap := (heap m)[r := (blk m r)\<lparr>bpid := ''FREE''\<rparr>],
                     available_memory := available_memory m + bsize (blk m r),
                     allocated_processes := AList.delete k (allocated_processes m)\<rparr>"
  have h1: "hist_ok m1" using h by (simp add: hist_ok_def m1_def)
  have ok1: "refs_ok m1" using rs(1) by (simp add: m1_def)
  from merge_frame[OF ok1, of 0] frame_hist_ok[OF _ h1]
  have "refs_ok (merge_loop m1 0)" "hist_ok (merge_loop m1 0)" by blast+
  then have "hist_ok (update_fragmentation (merge_loop m1 0) now)"
    by (intro uf_hist_ok) simp_all
  then show ?thesis by (simp add: deallocate_unfold[OF Some] m1_def)
qed

lemma deallocate_total_memory:
  assumes ok: "refs_ok m"
  shows "total_memory (fst (deallocate m now k)) = total_memory m"
proof (cases "map_of (allocated_processes m) k")
  case None
  then show ?thesis by (simp add: deallocate_absent)
next
  case (Some r)
  note rs = release_step[OF ok Some refl]
  from merge_frame[OF rs(1), of 0]
  show ?thesis
    by (simp add: deallocate_unfold[OF Some] only_free_changed_def same_books_def)
qed

text \<open>What one allocation call preserves and establishes.\<close>

lemma allocate_inv:
  assumes ok: "refs_ok m" and a: "allocate a m now p = Some (m', okay, addr)"
  shows "refs_ok m'"
    and "total_memory m' = total_memory m"
    and "hist_ok m \<Longrightarrow> hist_ok m'"
    and "index_ok m \<Longrightarrow> pid p \<noteq> ''FREE'' \<Longrightarrow> index_ok m'"
    and "conserved m \<Longrightarrow> pid p \<noteq> ''FREE'' \<Longrightarrow> conserved m'"
    and "logged_ok m lg \<Longrightarrow>
         logged_ok m' (if okay then (case map_of (allocated_processes m') (pid p) of
                                  Some r \<Rightarrow> AList.update r p lg | None \<Rightarrow> lg) else lg)"
    and "okay \<Longrightarrow> (\<exists>r. map_of (allocated_processes m') (pid p) = Some r \<and>
            r \<in> set (memory_map m') \<and> bpid (blk m' r) = pid p \<and> bsize (blk m' r) = psize p) \<and>
          available_memory m' = available_memory m - psize p"
proof -
  from allocate_cases[OF ok a]
  consider (fail) "(m', okay, addr) = (m, False, -1)"
    | (commit) m1 i where "refs_ok m1" "only_free_changed m m1" "i < length (memory_map m1)"
        "is_free (blk m1 (memory_map m1 ! i))"
        "(m', okay, addr) = allocate_block m1 now i (memory_map m1 ! i) p"
    by blast
  then have "refs_ok m' \<and> total_memory m' = total_memory m \<and> (hist_ok m \<longrightarrow> hist_ok m') \<and>
    (index_ok m \<longrightarrow> pid p \<noteq> ''FREE'' \<longrightarrow> index_ok m') \<and>
    (conserved m \<longrightarrow> pid p \<noteq> ''FREE'' \<longrightarrow> conserved m') \<and>
    (logged_ok m lg \<longrightarrow>
         logged_ok m' (if okay then (case map_of (allocated_processes m') (pid p) of
                                  Some r \<Rightarrow> AList.update r p lg | None \<Rightarrow> lg) else lg)) \<and>
    (okay \<longrightarrow> (\<exists>r. map_of (allocated_processes m') (pid p) = Some r \<and>
            r \<in> set (memory_map m') \<and> bpid (blk m' r) = pid p \<and> bsize (blk m' r) = psize p) \<and>
          available_memory m' = available_memory m - psize p)"
  proof cases
    case fail
    then show ?thesis using ok by simp
  next
    case commit
    define r where "r = memory_map m1 ! i"
    have rm: "r \<in> set (memory_map m1)" using commit(3) by (simp add: r_def)
    have rl: "r < length (heap m1)" using commit(1) rm by (simp add: refs_ok_def)
    have m': "m' = fst (allocate_block m1 now i r p)"
      using commit(5) by (metis fst_conv r_def)
    have okay: "okay" using commit(5) commit_shape(1)[OF rl refl, of now i p]
      by (metis fst_conv snd_conv r_def)
    have fr: "is_free (blk m1 r)" using commit(4) by (simp add: r_def)
    note sh = commit_shape[OF rl m']
    note cm = commit_committed[OF commit(1) rm m']
    have sb: "same_books m m1" using commit(2) by (simp add: only_free_changed_def)
    have 1: "refs_ok m'" by (rule commit_refs_ok[OF commit(1) rm m'])
    have 2: "total_memory m' = total_memory m" using sh(3) sb by (simp add: same_books_def)
    have 3: "hist_ok m \<longrightarrow> hist_ok m'"
      using frame_hist_ok[OF commit(2)] commit_hist_ok[OF commit(1) rm _ m'] by blast
    have 4: "index_ok m \<longrightarrow> pid p \<noteq> ''FREE'' \<longrightarrow> index_ok m'"
      using frame_index_ok[OF commit(2) commit(1)] commit_index_ok[OF commit(1) _ rm fr _ m']
      by blast
    have 5: "conserved m \<longrightarrow> pid p \<noteq> ''FREE'' \<longrightarrow> conserved m'"
    proof (intro impI)
      assume c: "conserved m" and pp: "pid p \<noteq> ''FREE''"
      have "conserved m1" by (rule frame_conserved[OF commit(2) commit(1) c])
      then show "conserved m'"
        using commit_owned_total[OF commit(1) rm fr m'] sh(2,3) pp
        by (simp add: conserved_def)
    qed
    have 6: "logged_ok m lg \<longrightarrow>
         logged_ok m' (if okay then (case map_of (allocated_processes m') (pid p) of
                                  Some r \<Rightarrow> AList.update r p lg | None \<Rightarrow> lg) else lg)"
      using frame_logged_ok[OF commit(2)] commit_logged_ok[OF commit(1) rm _ m'] okay cm(1)
      by simp
    have 7: "okay \<longrightarrow> (\<exists>r. map_of (allocated_processes m') (pid p) = Some r \<and>
            r \<in> set (memory_map m') \<and> bpid (blk m' r) = pid p \<and> bsize (blk m' r) = psize p) \<and>
          available_memory m' = available_memory m - psize p"
      using cm sb by (auto simp: same_books_def)
    show ?thesis using 1 2 3 4 5 6 7 by blast
  qed
  then show "refs_ok m'"
    and "total_memory m' = total_memory m"
    and "hist_ok m \<Longrightarrow> hist_ok m'"
    and "index_ok m \<Longrightarrow> pid p \<noteq> ''FREE'' \<Longrightarrow> index_ok m'"
    and "conserved m \<Longrightarrow> pid p \<noteq> ''FREE'' \<Longrightarrow> conserved m'"
    and "logged_ok m lg \<Longrightarrow>
         logged_ok m' (if okay then (case map_of (allocated_processes m') (pid p) of
                                  Some r \<Rightarrow> AList.update r p lg | None \<Rightarrow> lg) else lg)"
    and "okay \<Longrightarrow> (\<exists>r. map_of (allocated_processes m') (pid p) = Some r \<and>
            r \<in> set (memory_map m') \<and> bpid (blk m' r) = pid p \<and> bsize (blk m' r) = psize p) \<and>
          available_memory m' = available_memory m - psize p"
    by blast+
qed

subsection \<open>Sequences of calls\<close>

lemma init_inv:
  "refs_ok (MemoryManager now tm)" "index_ok (MemoryManager now tm)"
  "conserved (MemoryManager now tm)" "logged_ok (MemoryManager now tm) []"
  "hist_ok (MemoryManager now tm)" "total_memory (MemoryManager now tm) = tm"
proof -
  define m0 where "m0 = \<lparr>total_memory = tm, available_memory = tm,
        heap = [MemoryBlock 0 tm ''FREE''], memory_map = [0],
        allocated_processes = [], free_list = [0], fragmentation_history = [],
        allocation_count = 0, next_fit_start = 0\<rparr>"
  have e: "MemoryManager now tm = update_fragmentation m0 now"
    by (simp add: MemoryManager_def m0_def)
  have ok: "refs_ok m0" by (simp add: refs_ok_def m0_def)
  show "refs_ok (MemoryManager now tm)" using ok by (simp add: e)
  show "index_ok (MemoryManager now tm)" by (simp add: e index_ok_def m0_def)
  show "conserved (MemoryManager now tm)"
    by (simp add: e conserved_def owned_total_def ledger_def blk_def m0_def is_free_def
          MemoryBlock_def)
  show "logged_ok (MemoryManager now tm) []"
    by (simp add: e logged_ok_def m0_def is_free_def MemoryBlock_def)
  show "hist_ok (MemoryManager now tm)"
    unfolding e by (rule uf_hist_ok[OF ok]) (simp add: m0_def)
  show "total_memory (MemoryManager now tm) = tm" by (simp add: e m0_def)
qed

lemma step_refs_ok:
  assumes "refs_ok m" and "step now m c = Some m'"
  shows "refs_ok m'"
proof (cases c)
  case (Allocate a p)
  then obtain okay addr where "allocate a m now p = Some (m', okay, addr)"
    using assms(2) by (cases "allocate a m now p") auto
  from allocate_inv(1)[OF assms(1) this] show ?thesis .
next
  case (Release k)
  then show ?thesis using assms deallocate_inv(1)[OF assms(1), where now = now and k = k] by auto
qed

lemma run_refs_ok:
  "refs_ok m \<Longrightarrow> run now m cs = Some m' \<Longrightarrow> refs_ok m'"
proof (induction cs arbitrary: m)
  case Nil
  then show ?case by simp
next
  case (Cons c cs)
  from Cons.prems(2) obtain m1 where s: "step now m c = Some m1" and r: "run now m1 cs = Some m'"
    by (cases "step now m c") auto
  from Cons.IH[OF step_refs_ok[OF Cons.prems(1) s] r] show ?case .
qed

lemma step_total: "refs_ok m \<Longrightarrow> step now m c \<noteq> None"
  using allocate_total by (cases c) (simp_all del: not_None_eq)

lemma step_conserved:
  assumes ok: "refs_ok m" and ix: "index_ok m" and co: "conserved m" and pc: "proper_call c"
    and s: "step now m c = Some m'"
  shows "index_ok m'" and "conserved m'" and "total_memory m' = total_memory m"
proof -
  have "index_ok m' \<and> conserved m' \<and> total_memory m' = total_memory m"
  proof (cases c)
    case (Allocate a p)
    then obtain okay addr where a: "allocate a m now p = Some (m', okay, addr)"
      using s by (cases "allocate a m now p") auto
    have pp: "pid p \<noteq> ''FREE''" using pc Allocate by simp
    from allocate_inv(2,4,5)[OF ok a] ix co pp show ?thesis by simp
  next
    case (Release k)
    then have "m' = fst (deallocate m now k)" using s by simp
    then show ?thesis
      using deallocate_inv(2)[OF ok ix, where now = now and k = k]
        deallocate_inv(3)[OF ok ix co, where now = now and k = k]
        deallocate_total_memory[OF ok, where now = now and k = k]
      by simp
  qed
  then show "index_ok m'" and "conserved m'" and "total_memory m' = total_memory m" by simp_all
qed

lemma run_conserved:
  "refs_ok m \<Longrightarrow> index_ok m \<Longrightarrow> conserved m \<Longrightarrow> list_all proper_call cs \<Longrightarrow>
   \<exists>m'. run now m cs = Some m' \<and> conserved m' \<and> total_memory m' = total_memory m"
proof (induction cs arbitrary: m)
  case Nil
  then show ?case by simp
next
  case (Cons c cs)
  from step_total[OF Cons.prems(1), of now c] obtain m1 where s: "step now m c = Some m1" by auto
  have pc: "proper_call c" and pcs: "list_all proper_call cs" using Cons.prems(4) by simp_all
  note st = step_conserved[OF Cons.prems(1,2,3) pc s]
  from Cons.IH[OF step_refs_ok[OF Cons.prems(1) s] st(1,2) pcs] st(3) s
  show ?case by simp
qed

lemma step_logged_inv:
  assumes ok: "refs_ok m" and lg: "logged_ok m lg" and h: "hist_ok m"
  shows "\<exists>m' lg'. step_logged now (m, lg) c = Some (m', lg') \<and>
                  refs_ok m' \<and> logged_ok m' lg' \<and> hist_ok m'"
proof (cases c)
  case (Allocate a p)
  from allocate_total[OF ok, of a now p] obtain m' okay addr
    where a: "allocate a m now p = Some (m', okay, addr)" by (cases "allocate a m now p") auto
  from allocate_inv(1,3,6)[OF ok a] lg h show ?thesis
    using Allocate a by simp
next
  case (Release k)
  then show ?thesis
    using deallocate_inv(1)[OF ok, where now = now and k = k]
      deallocate_inv(4)[OF ok lg, where now = now and k = k]
      deallocate_hist_ok[OF ok h, where now = now and k = k]
    by simp
qed

lemma run_logged_inv:
  "refs_ok m \<Longrightarrow> logged_ok m lg \<Longrightarrow> hist_ok m \<Longrightarrow>
   \<exists>m' lg'. run_logged now (m, lg) cs = Some (m', lg') \<and>
            refs_ok m' \<and> logged_ok m' lg' \<and> hist_ok m'"
proof (induction cs arbitrary: m lg)
  case Nil
  then show ?case by simp
next
  case (Cons c cs)
  from step_logged_inv[OF Cons.prems, of now c] obtain m1 lg1
    where s: "step_logged now (m, lg) c = Some (m1, lg1)"
      and i: "refs_ok m1" "logged_ok m1 lg1" "hist_ok m1" by blast
  from Cons.IH[OF i] s show ?case by simp
qed

subsection \<open>Compaction, export and import\<close>

lemma pack_sizes [simp]: "map bsize (pack a bs) = map bsize bs"
  by (induction bs arbitrary: a) simp_all

lemma pack_owners [simp]: "map bpid (pack a bs) = map bpid bs"
  by (induction bs arbitrary: a) simp_all

lemma pack_pairs: "map (\<lambda>b. (bsize b, bpid b)) (pack a bs) = map (\<lambda>b. (bsize b, bpid b)) bs"
  by (induction bs arbitrary: a) simp_all

lemma pack_length [simp]: "length (pack a bs) = length bs"
  by (induction bs arbitrary: a) simp_all

lemma pack_idem: "pack a (pack a bs) = pack a bs"
  by (induction bs arbitrary: a) simp_all

lemma pack_filter_owned:
  "filter (\<lambda>b. \<not> is_free b) (pack a (filter (\<lambda>b. \<not> is_free b) bs)) =
   pack a (filter (\<lambda>b. \<not> is_free b) bs)"
  by (induction bs arbitrary: a) (simp_all add: is_free_def)

lemma pack_filter_free: "filter is_free (pack a (filter (\<lambda>b. \<not> is_free b) bs)) = []"
  by (induction bs arbitrary: a) (simp_all add: is_free_def)

lemma contiguous_pack_append:
  "contiguous a (pack a bs @ [MemoryBlock (a + sum_list (map bsize bs)) f p])"
proof (induction bs arbitrary: a)
  case Nil
  then show ?case by (simp add: MemoryBlock_def)
next
  case (Cons b bs)
  show ?case using Cons.IH[of "a + bsize b"] by (simp add: ac_simps)
qed

lemma relocate_length [simp]: "length (relocate h a rs) = length h"
  by (induction rs arbitrary: h a) simp_all

lemma relocate_other: "q \<notin> set rs \<Longrightarrow> relocate h a rs ! q = h ! q"
  by (induction rs arbitrary: h a) (auto simp: nth_list_update)

lemma relocate_pack:
  "distinct rs \<Longrightarrow> (\<And>r. r \<in> set rs \<Longrightarrow> r < length h) \<Longrightarrow>
   map ((!) (relocate h a rs)) rs = pack a (map ((!) h) rs)"
proof (induction rs arbitrary: h a)
  case Nil
  then show ?case by simp
next
  case (Cons r rs)
  define h' where "h' = h[r := (h ! r)\<lparr>start := a, bend := a + bsize (h ! r) - 1\<rparr>]"
  have rn: "r \<notin> set rs" and d: "distinct rs" using Cons.prems(1) by simp_all
  have rl: "r < length h" using Cons.prems(2) by simp
  have in': "\<And>q. q \<in> set rs \<Longrightarrow> q < length h'" using Cons.prems(2) by (simp add: h'_def)
  have same: "map ((!) h') rs = map ((!) h) rs"
  proof (rule map_cong[OF refl])
    fix x assume "x \<in> set rs"
    then have "r \<noteq> x" using rn by auto
    then show "h' ! x = h ! x" by (simp add: h'_def)
  qed
  have "map ((!) (relocate h' (a + bsize (h ! r)) rs)) rs = pack (a + bsize (h ! r)) (map ((!) h') rs)"
    by (rule Cons.IH[OF d in'])
  moreover have "relocate h' (a + bsize (h ! r)) rs ! r = h' ! r"
    by (rule relocate_other[OF rn])
  moreover have "h' ! r = (h ! r)\<lparr>start := a, bend := a + bsize (h ! r) - 1\<rparr>"
    using rl by (simp add: h'_def)
  ultimately show ?case by (simp add: h'_def[symmetric] same)
qed

lemma owned_blocks: "map (blk m) (owned_refs m) = filter (\<lambda>b. \<not> is_free b) (ledger m)"
  by (simp add: owned_refs_def ledger_def filter_map comp_def)

lemma compact_ledger:
  assumes ok: "refs_ok m"
  shows "ledger (compact_memory m) =
     pack 0 (filter (\<lambda>b. \<not> is_free b) (ledger m)) @
     [MemoryBlock (owned_total m) (free_total m) ''FREE'']"
proof -
  define H where "H = relocate (heap m) 0 (owned_refs m)"
  define F where "F = MemoryBlock (owned_total m) (free_total m) ''FREE''"
  have used: "sum_list (map (\<lambda>r. bsize (blk m r)) (owned_refs m)) = owned_total m"
    by (simp add: owned_total_def owned_blocks[symmetric] comp_def)
  have hp: "heap (compact_memory m) = H @ [F]"
    and mp: "memory_map (compact_memory m) = owned_refs m @ [length (heap m)]"
    using used
    by (simp_all add: compact_memory_def Let_def H_def F_def owned_refs_def[symmetric] free_total_def)
  have d: "distinct (owned_refs m)" using ok by (simp add: refs_ok_def owned_refs_def)
  have inr: "\<And>r. r \<in> set (owned_refs m) \<Longrightarrow> r < length (heap m)"
    using ok by (simp add: refs_ok_def owned_refs_def)
  have "map ((!) (H @ [F])) (owned_refs m) = map ((!) H) (owned_refs m)"
    using inr by (simp add: nth_append H_def)
  also have "\<dots> = pack 0 (map ((!) (heap m)) (owned_refs m))"
    unfolding H_def by (rule relocate_pack[OF d inr])
  also have "map ((!) (heap m)) (owned_refs m) = filter (\<lambda>b. \<not> is_free b) (ledger m)"
    using owned_blocks[of m] by (simp add: blk_def[abs_def])
  finally have a: "map ((!) (H @ [F])) (owned_refs m) = pack 0 (filter (\<lambda>b. \<not> is_free b) (ledger m))" .
  have b: "(H @ [F]) ! length (heap m) = F" by (simp add: nth_append H_def)
  show ?thesis
    using a b by (simp add: ledger_def blk_def[abs_def] hp mp F_def)
qed

lemma compact_refs_ok:
  assumes ok: "refs_ok m"
  shows "refs_ok (compact_memory m)"
proof -
  have hl: "length (heap (compact_memory m)) = Suc (length (heap m))"
    and mp: "memory_map (compact_memory m) = owned_refs m @ [length (heap m)]"
    and ap: "allocated_processes (compact_memory m) = allocated_processes m"
    by (simp_all add: compact_memory_def Let_def owned_refs_def)
  have inr: "\<forall>r \<in> set (memory_map m). r < length (heap m)" using ok by (simp add: refs_ok_def)
  have a: "\<forall>r \<in> set (memory_map (compact_memory m)). r < length (heap (compact_memory m))"
    using inr by (auto simp: hl mp owned_refs_def less_Suc_eq)
  have b: "\<forall>k r. map_of (allocated_processes (compact_memory m)) k = Some r \<longrightarrow>
             r < length (heap (compact_memory m))"
  proof (intro allI impI)
    fix k r assume "map_of (allocated_processes (compact_memory m)) k = Some r"
    then have "map_of (allocated_processes m) k = Some r" by (simp only: ap)
    then have "r < length (heap m)" using ok unfolding refs_ok_def by blast
    then show "r < length (heap (compact_memory m))" by (simp add: hl)
  qed
  have c: "distinct (memory_map (compact_memory m))"
    using ok inr by (auto simp: mp owned_refs_def refs_ok_def)
  have d: "distinct (map fst (allocated_processes (compact_memory m)))"
    using ok by (simp add: ap refs_ok_def)
  show ?thesis unfolding refs_ok_def using a b c d by (intro conjI)
qed

text \<open>Import after export.\<close>

lemma import_fold:
  "heap (fold (\<lambda>(s, n, p) m.
                m\<lparr>heap := heap m @ [\<lparr>start = s, bsize = n, bend = s + n - 1, bpid = p\<rparr>],
                  memory_map := memory_map m @ [length (heap m)]\<rparr>) ds m) =
     heap m @ map (\<lambda>(s, n, p). \<lparr>start = s, bsize = n, bend = s + n - 1, bpid = p\<rparr>) ds
   \<and> memory_map (fold (\<lambda>(s, n, p) m.
                m\<lparr>heap := heap m @ [\<lparr>start = s, bsize = n, bend = s + n - 1, bpid = p\<rparr>],
                  memory_map := memory_map m @ [length (heap m)]\<rparr>) ds m) =
     memory_map m @ [length (heap m)..<length (heap m) + length ds]
   \<and> allocated_processes (fold (\<lambda>(s, n, p) m.
                m\<lparr>heap := heap m @ [\<lparr>start = s, bsize = n, bend = s + n - 1, bpid = p\<rparr>],
                  memory_map := memory_map m @ [length (heap m)]\<rparr>) ds m) =
     allocated_processes m"
proof (induction ds arbitrary: m)
  case Nil
  then show ?case by simp
next
  case (Cons d ds)
  obtain s n p where d: "d = (s, n, p)" by (cases d)
  have e: "[length (heap m)..<Suc (length (heap m) + length ds)] =
           length (heap m) # [Suc (length (heap m))..<Suc (length (heap m) + length ds)]"
    by (rule upt_conv_Cons) simp
  show ?case
    by (simp add: d Cons.IH e del: upt_Suc)
qed

lemma map_nth_append_upt: "map ((!) (xs @ ys)) [length xs..<length xs + length ys] = ys"
proof -
  have "[length xs..<length xs + length ys] = map (\<lambda>i. i + length xs) [0..<length ys]"
    by (simp only: map_add_upt add.commute)
  then have "map ((!) (xs @ ys)) [length xs..<length xs + length ys] =
             map (\<lambda>i. (xs @ ys) ! (i + length xs)) [0..<length ys]"
    by (simp only: map_map comp_def)
  also have "\<dots> = map ((!) ys) [0..<length ys]"
    by (rule map_cong[OF refl]) (simp add: nth_append)
  also have "\<dots> = ys" by (rule map_nth)
  finally show ?thesis .
qed

subsection \<open>The cursor of next_fit\<close>

text \<open>The cursor of \<open>next_fit\<close>.\<close>

lemma allocate_block_succeeds: "fst (snd (allocate_block m now i r p)) = True"
  by (simp add: allocate_block_def Let_def)

lemma allocate_block_cursor:
  "next_fit_start (fst (allocate_block m now i r p)) = next_fit_start m"
  by (simp add: allocate_block_def Let_def)

lemma next_fit_failure_keeps_manager:
  assumes "next_fit m now p = (m', False, a)"
  shows "m' = m"
proof (cases "find (\<lambda>i. fits m p ((next_fit_start m + i) mod length (memory_map m)))
               [0..<length (memory_map m)]")
  case None
  then show ?thesis using assms by (simp add: next_fit_def Let_def)
next
  case (Some i)
  then have "fst (snd (next_fit m now p)) = True"
    by (simp add: next_fit_def Let_def allocate_block_succeeds)
  then show ?thesis using assms by simp
qed

lemma next_fit_success_cursor:
  assumes "next_fit m now p = (m', True, a)"
  shows "\<exists>i < length (memory_map m).
           fits m p ((next_fit_start m + i) mod length (memory_map m)) \<and>
           (\<forall>j < i. \<not> fits m p ((next_fit_start m + j) mod length (memory_map m))) \<and>
           next_fit_start m' =
             ((next_fit_start m + i) mod length (memory_map m) + 1) mod length (memory_map m)"
proof (cases "find (\<lambda>i. fits m p ((next_fit_start m + i) mod length (memory_map m)))
               [0..<length (memory_map m)]")
  case None
  then show ?thesis using assms by (simp add: next_fit_def Let_def)
next
  case (Some i)
  from Some obtain k where k: "k < length [0..<length (memory_map m)]"
      "fits m p ((next_fit_start m + [0..<length (memory_map m)] ! k) mod length (memory_map m))"
      "i = [0..<length (memory_map m)] ! k"
      "\<forall>j < k. \<not> fits m p ((next_fit_start m + [0..<length (memory_map m)] ! j) mod length (memory_map m))"
    unfolding find_Some_iff by blast
  have ik: "i = k" and il: "i < length (memory_map m)" using k(1,3) by simp_all
  have f: "fits m p ((next_fit_start m + i) mod length (memory_map m))" using k(2,3) by simp
  have first: "\<forall>j < i. \<not> fits m p ((next_fit_start m + j) mod length (memory_map m))"
  proof (intro allI impI)
    fix j assume j: "j < i"
    then have "j < k" using ik by simp
    moreover have "[0..<length (memory_map m)] ! j = j" using j il by simp
    ultimately show "\<not> fits m p ((next_fit_start m + j) mod length (memory_map m))"
      using k(4) by auto
  qed
  have "m' = fst (next_fit m now p)" using assms by simp
  then have "next_fit_start m' =
             ((next_fit_start m + i) mod length (memory_map m) + 1) mod length (memory_map m)"
    using Some by (simp add: next_fit_def Let_def allocate_block_cursor)
  then show ?thesis using il f first by blast
qed

lemma merge_loop_cursor: "next_fit_start (merge_loop m i) = next_fit_start m"
proof (induction m i rule: merge_loop.induct)
  case (1 m i)
  show ?case
  proof (cases "i + 1 < length (memory_map m)")
    case False
    then show ?thesis by (simp add: merge_loop.simps[of m i])
  next
    case True
    show ?thesis
    proof (cases "is_free (blk m (memory_map m ! i)) \<and> is_free (blk m (memory_map m ! (i + 1)))")
      case both: True
      have "merge_loop m i =
            merge_loop (m\<lparr>heap := (heap m)[memory_map m ! i := (blk m (memory_map m ! i))
                 \<lparr>bsize := bsize (blk m (memory_map m ! i)) + bsize (blk m (memory_map m ! (i + 1))),
                  bend := start (blk m (memory_map m ! i)) +
                    (bsize (blk m (memory_map m ! i)) + bsize (blk m (memory_map m ! (i + 1)))) - 1\<rparr>],
                memory_map := list_pop (i + 1) (memory_map m)\<rparr>) i"
        by (subst merge_loop.simps) (simp only: Let_def True both simp_thms if_True)
      then show ?thesis using "1.IH"(1)[OF True refl refl both refl] by simp
    next
      case False
      have "merge_loop m i = merge_loop m (i + 1)"
        by (subst merge_loop.simps) (simp only: Let_def True False simp_thms if_True if_False)
      then show ?thesis using "1.IH"(2)[OF True refl refl False] by simp
    qed
  qed
qed

lemma deallocate_keeps_cursor: "next_fit_start (fst (deallocate m now k)) = next_fit_start m"
  by (cases "map_of (allocated_processes m) k")
     (simp_all add: deallocate_def Let_def merge_free_blocks_def merge_loop_cursor)

subsection \<open>Coalescing\<close>

text \<open>Coalescing leaves no two adjacent FREE segments.\<close>

lemma no_adjacent_free_snoc:
  "xs \<noteq> [] \<Longrightarrow> no_adjacent_free (xs @ [y]) = (no_adjacent_free xs \<and> \<not> (last xs \<and> y))"
  by (induction xs rule: no_adjacent_free.induct) simp_all

lemma free_flags_merge_step:
  "free_flags (m\<lparr>heap := (heap m)[c := (blk m c)\<lparr>bsize := sz, bend := e\<rparr>],
               memory_map := list_pop j (memory_map m)\<rparr>) = list_pop j (free_flags m)"
proof -
  have "\<And>q. is_free (((heap m)[c := (blk m c)\<lparr>bsize := sz, bend := e\<rparr>]) ! q) = is_free (heap m ! q)"
  proof -
    fix q show "is_free (((heap m)[c := (blk m c)\<lparr>bsize := sz, bend := e\<rparr>]) ! q) = is_free (heap m ! q)"
      by (cases "q = c"; cases "c < length (heap m)") (simp_all add: is_free_def blk_def list_update_beyond)
  qed
  then show ?thesis
    by (simp add: free_flags_def ledger_def blk_def[abs_def] list_pop_def take_map drop_map)
qed

lemma merge_loop_no_adjacent_free:
  "no_adjacent_free (take (Suc i) (free_flags m)) \<Longrightarrow>
   no_adjacent_free (free_flags (merge_loop m i))"
proof (induction m i rule: merge_loop.induct)
  case (1 m i)
  have len: "length (free_flags m) = length (memory_map m)"
    by (simp add: free_flags_def ledger_def)
  show ?case
  proof (cases "i + 1 < length (memory_map m)")
    case False
    then have "take (Suc i) (free_flags m) = free_flags m" using len by simp
    then show ?thesis using False "1.prems" by (simp add: merge_loop.simps[of m i])
  next
    case True
    have fi: "free_flags m ! i = is_free (blk m (memory_map m ! i))"
      and fs: "free_flags m ! (i + 1) = is_free (blk m (memory_map m ! (i + 1)))"
      using True by (simp_all add: free_flags_def ledger_def)
    show ?thesis
    proof (cases "is_free (blk m (memory_map m ! i)) \<and> is_free (blk m (memory_map m ! (i + 1)))")
      case both: True
      define m' where "m' = m\<lparr>heap := (heap m)[memory_map m ! i := (blk m (memory_map m ! i))
                 \<lparr>bsize := bsize (blk m (memory_map m ! i)) + bsize (blk m (memory_map m ! (i + 1))),
                  bend := start (blk m (memory_map m ! i)) +
                    (bsize (blk m (memory_map m ! i)) + bsize (blk m (memory_map m ! (i + 1)))) - 1\<rparr>],
                memory_map := list_pop (i + 1) (memory_map m)\<rparr>"
      have e: "merge_loop m i = merge_loop m' i"
        by (subst merge_loop.simps) (simp only: Let_def True both simp_thms if_True m'_def)
      have "free_flags m' = list_pop (i + 1) (free_flags m)"
        unfolding m'_def by (rule free_flags_merge_step)
      moreover have "Suc i < length (free_flags m)" using True len by simp
      ultimately have "take (Suc i) (free_flags m') = take (Suc i) (free_flags m)"
        by (simp add: list_pop_def)
      then have "no_adjacent_free (take (Suc i) (free_flags m'))" using "1.prems" by simp
      then have "no_adjacent_free (free_flags (merge_loop m' i))"
        using "1.IH"(1)[OF True refl refl both refl] by (simp add: m'_def)
      then show ?thesis by (simp add: e)
    next
      case False
      have e: "merge_loop m i = merge_loop m (i + 1)"
        by (subst merge_loop.simps) (simp only: Let_def True False simp_thms if_True if_False)
      have i2: "Suc i < length (free_flags m)" using True len by simp
      have t: "take (Suc (Suc i)) (free_flags m) = take (Suc i) (free_flags m) @ [free_flags m ! Suc i]"
        by (rule take_Suc_conv_app_nth[OF i2])
      have ne: "take (Suc i) (free_flags m) \<noteq> []" using i2 by auto
      have l: "last (take (Suc i) (free_flags m)) = free_flags m ! i"
        using i2 by (simp add: take_Suc_conv_app_nth)
      have "no_adjacent_free (take (Suc (i + 1)) (free_flags m))"
        using "1.prems" False fi fs by (simp add: t no_adjacent_free_snoc[OF ne] l)
      from "1.IH"(2)[OF True refl refl False this] e show ?thesis by simp
    qed
  qed
qed

lemma take_one_no_adjacent_free: "no_adjacent_free (take (Suc 0) xs)"
  by (cases xs) simp_all

lemma deallocate_no_adjacent_free:
  assumes "deallocate m now k = (m', True)"
  shows "no_adjacent_free (free_flags m')"
proof (cases "map_of (allocated_processes m) k")
  case None
  then show ?thesis using assms by (simp add: deallocate_def)
next
  case (Some r)
  have "m' = fst (deallocate m now k)" using assms by simp
  then have "free_flags m' = free_flags (merge_loop (m\<lparr>heap := (heap m)[r := (blk m r)\<lparr>bpid := ''FREE''\<rparr>],
                     available_memory := available_memory m + bsize (blk m r),
                     allocated_processes := AList.delete k (allocated_processes m)\<rparr>) 0)"
    by (simp add: deallocate_unfold[OF Some] free_flags_def)
  then show ?thesis
    using merge_loop_no_adjacent_free[OF take_one_no_adjacent_free] by simp
qed

subsection \<open>The sum of the segment sizes\<close>

text \<open>The sum of the segment sizes under every operation but the buddy split.\<close>

lemma ledger_total_alt: "ledger_total m = sum_list (map (\<lambda>q. bsize (blk m q)) (memory_map m))"
  by (simp add: ledger_total_def ledger_def comp_def)

lemma commit_sizes:
  assumes r: "r < length (heap m)" and m': "m' = fst (allocate_block m now i r p)"
  shows "(memory_map m' = memory_map m \<and> bsize (heap m ! r) = psize p) \<or>
         (memory_map m' = list_insert (i + 1) (length (heap m)) (memory_map m) \<and>
          bsize (heap m' ! length (heap m)) = bsize (heap m ! r) - psize p)"
  using r unfolding m'
  by (simp add: allocate_block_def Let_def blk_def nth_append MemoryBlock_def)

lemma commit_ledger_total:
  assumes ok: "refs_ok m" and rm: "r \<in> set (memory_map m)"
    and m': "m' = fst (allocate_block m now i r p)"
  shows "ledger_total m' = ledger_total m"
proof -
  have rl: "r < length (heap m)" using ok rm by (simp add: refs_ok_def)
  note sh = commit_shape[OF rl m']
  define f where "f = (\<lambda>q. bsize (blk m q))"
  define g where "g = (\<lambda>q. bsize (blk m' q))"
  have d: "distinct (memory_map m)" using ok by (simp add: refs_ok_def)
  have same: "\<And>x. x \<in> set (memory_map m) \<Longrightarrow> x \<noteq> r \<Longrightarrow> g x = f x"
  proof -
    fix x assume "x \<in> set (memory_map m)" and xr: "x \<noteq> r"
    then have "x < length (heap m)" using ok by (simp add: refs_ok_def)
    from sh(6)[OF this xr] show "g x = f x" by (simp add: g_def f_def blk_def)
  qed
  have pt: "sum_list (map g (memory_map m)) = sum_list (map f (memory_map m)) - f r + g r"
    by (rule sum_point[OF d rm same])
  have gr: "g r = psize p" using sh(7) by (simp add: g_def blk_def)
  from commit_sizes[OF rl m'] have "sum_list (map g (memory_map m')) = sum_list (map f (memory_map m))"
  proof
    assume "memory_map m' = memory_map m \<and> bsize (heap m ! r) = psize p"
    then show ?thesis using pt gr by (simp add: f_def blk_def)
  next
    assume a: "memory_map m' = list_insert (i + 1) (length (heap m)) (memory_map m) \<and>
          bsize (heap m' ! length (heap m)) = bsize (heap m ! r) - psize p"
    then have "g (length (heap m)) = f r - psize p" by (simp add: g_def f_def blk_def)
    then show ?thesis using a pt gr by (simp add: sum_list_insert)
  qed
  then show ?thesis by (simp only: ledger_total_alt g_def f_def)
qed

lemma release_ledger_total:
  "ledger_total (m\<lparr>heap := (heap m)[r := (blk m r)\<lparr>bpid := ''FREE''\<rparr>],
                   available_memory := av, allocated_processes := ap\<rparr>) = ledger_total m"
proof -
  have "\<And>q. bsize (((heap m)[r := (blk m r)\<lparr>bpid := ''FREE''\<rparr>]) ! q) = bsize (heap m ! q)"
  proof -
    fix q show "bsize (((heap m)[r := (blk m r)\<lparr>bpid := ''FREE''\<rparr>]) ! q) = bsize (heap m ! q)"
      by (cases "q = r"; cases "r < length (heap m)") (simp_all add: blk_def list_update_beyond)
  qed
  then show ?thesis by (simp add: ledger_total_alt blk_def)
qed

lemma merge_loop_ledger_total:
  "refs_ok m \<Longrightarrow> ledger_total (merge_loop m i) = ledger_total m"
proof (induction m i rule: merge_loop.induct)
  case (1 m i)
  note ok = "1.prems"
  show ?case
  proof (cases "i + 1 < length (memory_map m)")
    case False
    then show ?thesis by (simp add: merge_loop.simps[of m i])
  next
    case True
    define c where "c = memory_map m ! i"
    define n where "n = memory_map m ! (i + 1)"
    show ?thesis
    proof (cases "is_free (blk m c) \<and> is_free (blk m n)")
      case False
      then have nb: "\<not> (is_free (blk m (memory_map m ! i)) \<and> is_free (blk m (memory_map m ! (i + 1))))"
        unfolding c_def n_def .
      have e: "merge_loop m i = merge_loop m (i + 1)"
        by (subst merge_loop.simps) (simp only: Let_def True nb simp_thms if_True if_False)
      from "1.IH"(2)[OF True refl refl nb ok] e show ?thesis by simp
    next
      case both: True
      define sz where "sz = bsize (blk m c) + bsize (blk m n)"
      define b' where "b' = (blk m c)\<lparr>bsize := sz, bend := start (blk m c) + sz - 1\<rparr>"
      define m' where "m' = m\<lparr>heap := (heap m)[c := b'],
                               memory_map := list_pop (i + 1) (memory_map m)\<rparr>"
      have both': "is_free (blk m (memory_map m ! i)) \<and> is_free (blk m (memory_map m ! (i + 1)))"
        using both unfolding c_def n_def .
      have e: "merge_loop m i = merge_loop m' i"
        by (subst merge_loop.simps)
           (simp only: Let_def True both' simp_thms if_True m'_def b'_def sz_def c_def n_def)
      have d: "distinct (memory_map m)" using ok by (simp add: refs_ok_def)
      have cm: "c \<in> set (memory_map m)" using True by (simp add: c_def)
      have cl: "c < length (heap m)" using ok cm by (simp add: refs_ok_def)
      have cn: "c \<noteq> n" using d True by (auto simp: c_def n_def nth_eq_iff_index_eq)
      have fc: "is_free (heap m ! c)" using both by (simp add: blk_def)
      have fb: "is_free b'" using both by (simp add: b'_def is_free_def)
      have fj: "is_free (heap m ! (memory_map m ! (i + 1)))" using both by (simp add: blk_def n_def)
      have ok': "refs_ok m'"
        using free_pop_frame(1)[OF ok cl fc fb True fj m'_def] .
      define f where "f = (\<lambda>q. bsize (blk m q))"
      define g where "g = (\<lambda>q. bsize (blk m' q))"
      have same: "\<And>x. x \<in> set (memory_map m) \<Longrightarrow> x \<noteq> c \<Longrightarrow> g x = f x"
        by (simp add: g_def f_def blk_def m'_def)
      have pt: "sum_list (map g (memory_map m)) = sum_list (map f (memory_map m)) - f c + g c"
        by (rule sum_point[OF d cm same])
      have gc: "g c = f c + f n" using cl by (simp add: g_def f_def blk_def m'_def b'_def sz_def)
      have gn: "g n = f n" using cn by (simp add: g_def f_def blk_def m'_def)
      have "sum_list (map g (memory_map m')) = sum_list (map g (memory_map m)) - g n"
        using sum_list_pop[OF True, of g] by (simp add: m'_def n_def)
      then have "ledger_total m' = ledger_total m"
        using pt gc gn by (simp add: ledger_total_alt g_def f_def)
      moreover have "ledger_total (merge_loop m' i) = ledger_total m'"
        using "1.IH"(1)[OF True refl refl both' refl] ok'
        by (simp add: m'_def b'_def sz_def c_def n_def)
      ultimately show ?thesis by (simp add: e)
    qed
  qed
qed

lemma deallocate_ledger_total:
  assumes ok: "refs_ok m"
  shows "ledger_total (fst (deallocate m now k)) = ledger_total m"
proof (cases "map_of (allocated_processes m) k")
  case None
  then show ?thesis by (simp add: deallocate_absent)
next
  case (Some r)
  note rs = release_step(1)[OF ok Some refl]
  have "ledger_total (fst (deallocate m now k)) =
        ledger_total (merge_loop (m\<lparr>heap := (heap m)[r := (blk m r)\<lparr>bpid := ''FREE''\<rparr>],
                     available_memory := available_memory m + bsize (blk m r),
                     allocated_processes := AList.delete k (allocated_processes m)\<rparr>) 0)"
    by (simp add: deallocate_unfold[OF Some] ledger_total_def)
  also have "\<dots> = ledger_total (m\<lparr>heap := (heap m)[r := (blk m r)\<lparr>bpid := ''FREE''\<rparr>],
                     available_memory := available_memory m + bsize (blk m r),
                     allocated_processes := AList.delete k (allocated_processes m)\<rparr>)"
    by (rule merge_loop_ledger_total[OF rs])
  also have "\<dots> = ledger_total m" by (rule release_ledger_total)
  finally show ?thesis .
qed

lemma plain_step_ledger_total:
  assumes ok: "refs_ok m" and pc: "plain_call c" and s: "step now m c = Some m'"
  shows "ledger_total m' = ledger_total m"
proof (cases c)
  case (Allocate a p)
  then obtain okay addr where a: "allocate a m now p = Some (m', okay, addr)"
    using s by (cases "allocate a m now p") auto
  have nb: "a \<noteq> BUDDY_SYSTEM" using pc Allocate by simp
  from allocate_cases[OF ok a] nb
  consider "(m', okay, addr) = (m, False, -1)"
    | m1 i where "refs_ok m1" "i < length (memory_map m1)"
        "heap m1 = heap m" "memory_map m1 = memory_map m"
        "(m', okay, addr) = allocate_block m1 now i (memory_map m1 ! i) p"
    by blast
  then show ?thesis
  proof cases
    case 1
    then show ?thesis by simp
  next
    case 2
    have "m' = fst (allocate_block m1 now i (memory_map m1 ! i) p)"
      using 2(5) by (metis fst_conv)
    from commit_ledger_total[OF 2(1) nth_mem[OF 2(2)] this]
    show ?thesis using 2(3,4) by (simp add: ledger_total_alt blk_def)
  qed
next
  case (Release k)
  then show ?thesis using s deallocate_ledger_total[OF ok, where now = now and k = k] by auto
qed

lemma plain_run_ledger_total:
  "refs_ok m \<Longrightarrow> list_all plain_call cs \<Longrightarrow>
   \<exists>m'. run now m cs = Some m' \<and> ledger_total m' = ledger_total m"
proof (induction cs arbitrary: m)
  case Nil
  then show ?case by simp
next
  case (Cons c cs)
  from step_total[OF Cons.prems(1), of now c] obtain m1 where s: "step now m c = Some m1" by auto
  have pc: "plain_call c" and pcs: "list_all plain_call cs" using Cons.prems(2) by simp_all
  from Cons.IH[OF step_refs_ok[OF Cons.prems(1) s] pcs]
    plain_step_ledger_total[OF Cons.prems(1) pc s] s
  show ?case by simp
qed

lemma sizes_sum_to_total_without_buddy:
  assumes "list_all plain_call cs"
  shows "\<exists>m. run now (MemoryManager now tm) cs = Some m \<and> ledger_total m = tm"
proof -
  have "ledger_total (MemoryManager now tm) = tm"
    by (simp add: MemoryManager_def ledger_total_def ledger_def blk_def MemoryBlock_def)
  then show ?thesis
    using plain_run_ledger_total[OF init_inv(1) assms, where now1 = now and tm1 = tm and now = now]
    by simp
qed

section \<open>The claims\<close>

text \<open>
  C1 (in every reachable state the sizes of the segments sum to total_memory, and after
  a release no two adjacent segments are FREE): on a manager of 1024, \<open>buddy_system\<close>
  for a request of 5 and then for a request of 1 leaves a ledger whose sizes sum to 1023.
  The second call halves the FREE remainder of size 3 with floor division into two
  blocks of size 1, and the address 7 belongs to no segment any more.
\<close>

theorem C1_buddy_split_loses_memory:
  "map_option (\<lambda>m. (total_memory m, sum_list (map bsize (ledger m)), tuples m))
     (run 0 (MemoryManager 0 1024)
        [Allocate BUDDY_SYSTEM (Process ''P1'' 5 0), Allocate BUDDY_SYSTEM (Process ''P2'' 1 0)])
   = Some (1024, 1023,
       [(0, 5, ''P1''), (5, 1, ''P2''), (6, 1, ''FREE''), (8, 8, ''FREE''), (16, 16, ''FREE''),
        (32, 32, ''FREE''), (64, 64, ''FREE''), (128, 128, ''FREE''), (256, 256, ''FREE''),
        (512, 512, ''FREE'')])"
  by code_simp

text \<open>
  C2, as stated for every sequence of calls: a request whose id is the sentinel
  \<open>''FREE''\<close> is committed like any other, so \<open>available_memory\<close> drops by its size, but
  the segment it is given reads as FREE and is not counted among the owned segments.
\<close>

theorem C2_sentinel_id_counterexample:
  "available_memory (fst (first_fit (MemoryManager 0 1024) 0 (Process ''FREE'' 100 0))) \<noteq>
   total_memory (fst (first_fit (MemoryManager 0 1024) 0 (Process ''FREE'' 100 0))) -
   owned_total (fst (first_fit (MemoryManager 0 1024) 0 (Process ''FREE'' 100 0)))"
  by code_simp

text \<open>
  C2 (conservation), for requests whose id is not the sentinel: every sequence of
  allocations by any of the five strategies and of releases runs to the end, and in the
  state it reaches \<open>available_memory\<close> equals \<open>total_memory\<close> minus the sum of the sizes
  of the owned segments of the ledger. Neither positive sizes nor a positive total are
  needed.
\<close>

theorem C2_conservation:
  assumes "list_all proper_call cs"
  shows "\<exists>m. run now (MemoryManager now tm) cs = Some m \<and> total_memory m = tm \<and>
             available_memory m = total_memory m - owned_total m"
  using run_conserved[OF init_inv(1,2,3) assms, where now1 = now and tm1 = tm and now = now]
    init_inv(6)[of now tm]
  by (auto simp: conserved_def)

text \<open>
  The conservation theorem at a sequence of three proper calls.
\<close>

theorem C2_conservation_witness:
  "list_all proper_call
     [Allocate BUDDY_SYSTEM (Process ''P1'' 300 0), Allocate FIRST_FIT (Process ''P2'' 100 0),
      Release ''P1'']
   \<and> (\<exists>m. run 0 (MemoryManager 0 1024)
            [Allocate BUDDY_SYSTEM (Process ''P1'' 300 0),
             Allocate FIRST_FIT (Process ''P2'' 100 0), Release ''P1''] = Some m \<and>
          total_memory m = 1024 \<and> available_memory m = total_memory m - owned_total m)"
proof -
  have h: "list_all proper_call
     [Allocate BUDDY_SYSTEM (Process ''P1'' 300 0), Allocate FIRST_FIT (Process ''P2'' 100 0),
      Release ''P1'']"
    by (simp add: Process_def)
  from C2_conservation[OF h, of 0 1024] h show ?thesis by blast
qed

text \<open>
  C3 (scenario D: the segments committed to buddy requests of 300 and 100 on a manager of
  1024 have the sizes 512 and 128): both calls succeed, and the committed segments have
  the sizes 300 and 100 of the requests.
\<close>

theorem C3_buddy_scenario_sizes:
  "(case buddy_system (MemoryManager 0 1024) 0 (Process ''P1'' 300 0) of
      None \<Rightarrow> None
    | Some (m1, ok1, a1) \<Rightarrow>
        (case buddy_system m1 0 (Process ''P2'' 100 0) of
           None \<Rightarrow> None
         | Some (m2, ok2, a2) \<Rightarrow>
             Some (ok1, committed_size m1 ''P1'', ok2, committed_size m2 ''P2'')))
   = Some (True, Some 300, True, Some 100)"
  by code_simp

text \<open>
  C4 (every segment produced by a buddy allocation has a power of two as its size): after
  a buddy allocation of 300 on a manager of 1024 the ledger holds the committed segment
  of size 300 and a FREE remainder of 212; a second buddy allocation of 100 halves that
  remainder into two blocks of 106.
\<close>

theorem C4_buddy_segment_sizes:
  "map_option tuples
     (run 0 (MemoryManager 0 1024) [Allocate BUDDY_SYSTEM (Process ''P1'' 300 0)])
   = Some [(0, 300, ''P1''), (300, 212, ''FREE''), (512, 512, ''FREE'')]
   \<and> map_option tuples
     (run 0 (MemoryManager 0 1024)
        [Allocate BUDDY_SYSTEM (Process ''P1'' 300 0), Allocate BUDDY_SYSTEM (Process ''P2'' 100 0)])
   = Some [(0, 300, ''P1''), (300, 100, ''P2''), (400, 6, ''FREE''), (406, 106, ''FREE''),
           (512, 512, ''FREE'')]"
  by code_simp

text \<open>
  C5 (a request of size 0 or less fails and changes nothing): \<open>first_fit\<close> for a request
  of size 0 on a manager of 1024 returns \<open>(True, 0)\<close>, puts a segment of size 0 into the
  ledger and enters the request into the allocation index.
\<close>

theorem C5_first_fit_accepts_size_zero:
  "(case first_fit (MemoryManager 0 1024) 0 (Process ''ZERO'' 0 0) of
      (m, ok, a) \<Rightarrow> (ok, a, tuples m, allocated_processes m, available_memory m))
   = (True, 0, [(0, 0, ''ZERO''), (0, 1024, ''FREE'')], [(''ZERO'', 0)], 1024)"
  by code_simp

text \<open>
  C6 (compaction), on the model of \<open>compact_memory\<close> that follows the spec: in a
  well-formed manager, the compacted ledger holds the owned segments with their sizes and
  owners in their original order, it starts at address 0 and is contiguous, its only FREE
  segment is the last one, which starts behind the owned segments and holds all the free
  space, and compacting a second time leaves the ledger as it is.
\<close>

theorem C6_compaction:
  assumes "refs_ok m"
  shows "map (\<lambda>b. (bsize b, bpid b)) (butlast (ledger (compact_memory m))) =
           map (\<lambda>b. (bsize b, bpid b)) (filter (\<lambda>b. \<not> is_free b) (ledger m))
       \<and> contiguous 0 (ledger (compact_memory m))
       \<and> filter is_free (ledger (compact_memory m)) = [last (ledger (compact_memory m))]
       \<and> last (ledger (compact_memory m)) = MemoryBlock (owned_total m) (free_total m) ''FREE''
       \<and> ledger (compact_memory (compact_memory m)) = ledger (compact_memory m)"
proof -
  define Ow where "Ow = filter (\<lambda>b. \<not> is_free b) (ledger m)"
  define F where "F = MemoryBlock (owned_total m) (free_total m) ''FREE''"
  have L: "ledger (compact_memory m) = pack 0 Ow @ [F]"
    using compact_ledger[OF assms] by (simp add: Ow_def F_def)
  have fF: "is_free F" by (simp add: F_def is_free_def MemoryBlock_def)
  have sF: "bsize F = free_total m" by (simp add: F_def MemoryBlock_def)
  have 1: "map (\<lambda>b. (bsize b, bpid b)) (butlast (ledger (compact_memory m))) =
           map (\<lambda>b. (bsize b, bpid b)) Ow"
    by (simp add: L pack_pairs)
  have ot: "owned_total m = sum_list (map bsize Ow)" by (simp add: owned_total_def Ow_def)
  have 2: "contiguous 0 (ledger (compact_memory m))"
    using contiguous_pack_append[of 0 Ow "free_total m" "''FREE''"] by (simp add: L F_def ot)
  have 3: "filter is_free (ledger (compact_memory m)) = [last (ledger (compact_memory m))]"
    using fF pack_filter_free[of 0 "ledger m"] by (simp add: L Ow_def)
  have 4: "last (ledger (compact_memory m)) = F" by (simp add: L)
  have ok': "refs_ok (compact_memory m)" by (rule compact_refs_ok[OF assms])
  have Ow': "filter (\<lambda>b. \<not> is_free b) (ledger (compact_memory m)) = pack 0 Ow"
    using fF pack_filter_owned[of 0 "ledger m"] by (simp add: L Ow_def)
  have "owned_total (compact_memory m) = sum_list (map bsize (pack 0 Ow))"
    by (simp only: owned_total_def Ow')
  then have ot': "owned_total (compact_memory m) = owned_total m"
    by (simp only: pack_sizes ot)
  have ft': "free_total (compact_memory m) = free_total m"
    using 3 4 sF by (simp add: free_total_def)
  have "ledger (compact_memory (compact_memory m)) =
      pack 0 (filter (\<lambda>b. \<not> is_free b) (ledger (compact_memory m))) @
      [MemoryBlock (owned_total (compact_memory m)) (free_total (compact_memory m)) ''FREE'']"
    by (rule compact_ledger[OF ok'])
  also have "\<dots> = pack 0 (pack 0 Ow) @ [F]" by (simp only: Ow' ot' ft' F_def)
  also have "\<dots> = pack 0 Ow @ [F]" by (simp only: pack_idem)
  finally have 5: "ledger (compact_memory (compact_memory m)) = ledger (compact_memory m)"
    by (simp only: L)
  show ?thesis using 1 2 3 4 5 by (simp add: Ow_def F_def)
qed

text \<open>
  The compaction theorem at the state after three allocations of 64 and the release of
  the middle one.
\<close>

theorem C6_compaction_witness:
  "\<exists>m. run 0 (MemoryManager 0 1024)
          [Allocate FIRST_FIT (Process ''A'' 64 0), Allocate FIRST_FIT (Process ''B'' 64 0),
           Allocate FIRST_FIT (Process ''C'' 64 0), Release ''B''] = Some m
     \<and> refs_ok m
     \<and> tuples m = [(0, 64, ''A''), (64, 64, ''FREE''), (128, 64, ''C''), (192, 832, ''FREE'')]
     \<and> tuples (compact_memory m) = [(0, 64, ''A''), (64, 64, ''C''), (128, 896, ''FREE'')]
     \<and> contiguous 0 (ledger (compact_memory m))
     \<and> filter is_free (ledger (compact_memory m)) = [last (ledger (compact_memory m))]
     \<and> ledger (compact_memory (compact_memory m)) = ledger (compact_memory m)"
proof -
  define cs where "cs = [Allocate FIRST_FIT (Process ''A'' 64 0), Allocate FIRST_FIT (Process ''B'' 64 0),
           Allocate FIRST_FIT (Process ''C'' 64 0), Release ''B'']"
  have e: "map_option (\<lambda>m. (tuples m, tuples (compact_memory m))) (run 0 (MemoryManager 0 1024) cs)
     = Some ([(0, 64, ''A''), (64, 64, ''FREE''), (128, 64, ''C''), (192, 832, ''FREE'')],
             [(0, 64, ''A''), (64, 64, ''C''), (128, 896, ''FREE'')])"
    unfolding cs_def by code_simp
  then obtain m where r: "run 0 (MemoryManager 0 1024) cs = Some m"
    and t: "tuples m = [(0, 64, ''A''), (64, 64, ''FREE''), (128, 64, ''C''), (192, 832, ''FREE'')]"
      "tuples (compact_memory m) = [(0, 64, ''A''), (64, 64, ''C''), (128, 896, ''FREE'')]"
    by (cases "run 0 (MemoryManager 0 1024) cs") auto
  have ok: "refs_ok m" by (rule run_refs_ok[OF init_inv(1) r])
  from C6_compaction[OF ok] r ok t show ?thesis unfolding cs_def by blast
qed

text \<open>
  What export followed by import keeps, for every state: the (start, size, owner) tuples of
  the ledger in their order, hence the number of segments, and the pid, size, arrival time
  and duration of the process history.
\<close>

lemma import_export_ledger:
  "tuples (memory_manager (import_memory_state now (export_memory_state a))) =
     tuples (memory_manager a)
   \<and> length (memory_map (memory_manager (import_memory_state now (export_memory_state a)))) =
     length (memory_map (memory_manager a))
   \<and> map (\<lambda>p. (pid p, psize p, arrival_time p, duration p))
       (process_history (import_memory_state now (export_memory_state a))) =
     map (\<lambda>p. (pid p, psize p, arrival_time p, duration p)) (process_history a)"
proof -
  define ds where "ds = doc_memory_map (export_memory_state a)"
  define mk where "mk = (\<lambda>(s :: int, n :: int, p :: string). \<lparr>start = s, bsize = n, bend = s + n - 1, bpid = p\<rparr>)"
  define m0 where "m0 = (MemoryManager now 1024)\<lparr>memory_map := []\<rparr>"
  define m' where "m' = memory_manager (import_memory_state now (export_memory_state a))"
  have dst: "ds = tuples (memory_manager a)"
    by (simp add: ds_def export_memory_state_def tuples_def)
  have h0: "length (heap m0) = 1" and a0: "allocated_processes m0 = []" and mm0: "memory_map m0 = []"
    by (simp_all add: m0_def MemoryManager_def)
  have f: "heap m' = heap m0 @ map mk ds"
     "memory_map m' = [length (heap m0)..<length (heap m0) + length ds]"
     "allocated_processes m' = []"
    using import_fold[of ds m0] a0 mm0
    by (simp_all add: m'_def import_memory_state_def ds_def m0_def mk_def)
  have "ledger m' = map mk ds"
    using map_nth_append_upt[of "heap m0" "map mk ds"]
    by (simp add: ledger_def blk_def[abs_def] f)
  then have 1: "tuples m' = ds"
    by (simp add: tuples_def mk_def comp_def split_def)
  have 2: "length (memory_map m') = length (memory_map (memory_manager a))"
    using f(2) dst by (simp add: tuples_def ledger_def)
  have 4: "map (\<lambda>p. (pid p, psize p, arrival_time p, duration p))
       (process_history (import_memory_state now (export_memory_state a))) =
     map (\<lambda>p. (pid p, psize p, arrival_time p, duration p)) (process_history a)"
    by (simp add: import_memory_state_def export_memory_state_def comp_def split_def)
  show ?thesis using 1 2 4 dst by (simp add: m'_def)
qed

text \<open>
  C7 (importing an exported state reproduces the segment count, the size of the allocation
  index and every (start, size, owner) tuple): after three first-fit allocations of 128 on
  a manager of 1024 the exporting manager has 4 segments and 3 index entries. The imported
  manager has the same 4 segments with the same tuples, but its allocation index has no
  entry, and its \<open>available_memory\<close> is 1024 beside owned segments of 384 in total.
\<close>

theorem C7_import_loses_allocation_index:
  "(case run 0 (MemoryManager 0 1024)
           [Allocate FIRST_FIT (Process ''P0'' 128 0), Allocate FIRST_FIT (Process ''P1'' 128 0),
            Allocate FIRST_FIT (Process ''P2'' 128 0)] of
      None \<Rightarrow> None
    | Some m \<Rightarrow>
        Some (length (memory_map m), length (allocated_processes m), tuples m,
              length (memory_map (memory_manager (import_memory_state 0
                 (export_memory_state \<lparr>memory_manager = m, process_history = []\<rparr>)))),
              length (allocated_processes (memory_manager (import_memory_state 0
                 (export_memory_state \<lparr>memory_manager = m, process_history = []\<rparr>)))),
              tuples (memory_manager (import_memory_state 0
                 (export_memory_state \<lparr>memory_manager = m, process_history = []\<rparr>))),
              available_memory (memory_manager (import_memory_state 0
                 (export_memory_state \<lparr>memory_manager = m, process_history = []\<rparr>))),
              owned_total (memory_manager (import_memory_state 0
                 (export_memory_state \<lparr>memory_manager = m, process_history = []\<rparr>)))))
   = Some (4, 3, [(0, 128, ''P0''), (128, 128, ''P1''), (256, 128, ''P2''), (384, 640, ''FREE'')],
           4, 0, [(0, 128, ''P0''), (128, 128, ''P1''), (256, 128, ''P2''), (384, 640, ''FREE'')],
           1024, 384)"
  by code_simp

text \<open>
  C8 (after a successful \<open>next_fit\<close> the cursor is (selected index + 1) modulo the length
  of the ledger after the allocation): three requests of 100 by \<open>next_fit\<close> on a manager
  of 1024 leave the cursor at 0 with four segments; a fourth request of 200 selects
  index 3 and leaves five segments, and the cursor is 0 again, not 4.
\<close>

theorem C8_next_fit_cursor_stays:
  "map_option (\<lambda>m. (next_fit_start m, length (memory_map m)))
     (run 0 (MemoryManager 0 1024)
        [Allocate NEXT_FIT (Process ''P0'' 100 0), Allocate NEXT_FIT (Process ''P1'' 100 0),
         Allocate NEXT_FIT (Process ''P2'' 100 0)])
   = Some (0, 4)
   \<and> map_option (\<lambda>m. (next_fit_start m, length (memory_map m), tuples m))
     (run 0 (MemoryManager 0 1024)
        [Allocate NEXT_FIT (Process ''P0'' 100 0), Allocate NEXT_FIT (Process ''P1'' 100 0),
         Allocate NEXT_FIT (Process ''P2'' 100 0), Allocate NEXT_FIT (Process ''PNEW'' 200 0)])
   = Some (0, 5, [(0, 100, ''P0''), (100, 100, ''P1''), (200, 100, ''P2''),
                  (300, 200, ''PNEW''), (500, 524, ''FREE'')])"
  by code_simp

text \<open>
  C9 (the internal fragmentation of a snapshot): every sequence of calls on a new manager
  runs to the end, and in the state it reaches the latest snapshot's internal
  fragmentation equals the sum, over the owned segments that are larger than the request
  they were committed to, of segment size minus request size. The requests are those of
  the side table kept by \<open>run_logged\<close>; every owned segment has its request there, and
  has exactly that request's size, so both sides are 0.
\<close>

theorem C9_internal_fragmentation:
  "\<exists>m lg. run_logged now (MemoryManager now tm, []) cs = Some (m, lg) \<and>
           fragmentation_history m \<noteq> [] \<and>
           internal (last (fragmentation_history m)) = internal_fragmentation_spec m lg \<and>
           list_all (\<lambda>r. map_option psize (map_of lg r) = Some (bsize (blk m r))) (owned_refs m)"
proof -
  from run_logged_inv[OF init_inv(1,4,5)] obtain m lg
    where r: "run_logged now (MemoryManager now tm, []) cs = Some (m, lg)"
      and i: "refs_ok m" "logged_ok m lg" "hist_ok m" by blast
  have "internal_fragmentation_spec m lg = 0" by (rule spec_frag_zero[OF i(1,2)])
  moreover have "fragmentation_history m \<noteq> []" "internal (last (fragmentation_history m)) = 0"
    using i(3) by (simp_all add: hist_ok_def)
  moreover have "list_all (\<lambda>r. map_option psize (map_of lg r) = Some (bsize (blk m r))) (owned_refs m)"
    unfolding list_all_iff
  proof
    fix q assume "q \<in> set (owned_refs m)"
    then have qm: "q \<in> set (memory_map m)" and nf: "\<not> is_free (blk m q)"
      by (simp_all add: owned_refs_def)
    have "q < length (heap m)" using i(1) qm by (simp add: refs_ok_def)
    then show "map_option psize (map_of lg q) = Some (bsize (blk m q))"
      using i(2) nf unfolding logged_ok_def blk_def by blast
  qed
  ultimately show ?thesis using r by simp
qed

text \<open>
  C10 (a successful allocation commits exactly the requested size): in every state a
  sequence of calls reaches from a new manager, a successful allocation by any of the
  five strategies leaves, under the request's id in the allocation index, a segment of
  the ledger that is owned by the request and has the request's size, and
  \<open>available_memory\<close> has dropped by the request's size.
\<close>

theorem C10_committed_size_is_request_size:
  assumes "run now (MemoryManager now tm) cs = Some m"
    and "allocate a m now p = Some (m', True, addr)"
  shows "committed_size m' (pid p) = Some (psize p) \<and>
         (\<exists>r. map_of (allocated_processes m') (pid p) = Some r \<and> r \<in> set (memory_map m') \<and>
              bpid (blk m' r) = pid p \<and> bsize (blk m' r) = psize p) \<and>
         available_memory m' = available_memory m - psize p"
proof -
  have ok: "refs_ok m" by (rule run_refs_ok[OF init_inv(1) assms(1)])
  from allocate_inv(7)[OF ok assms(2)] show ?thesis
    by (auto simp: committed_size_def)
qed

text \<open>
  The theorem at the buddy allocation of 300 in the state after a next-fit allocation
  of 100 on a manager of 1024.
\<close>

theorem C10_witness:
  "\<exists>m m' addr.
     run 0 (MemoryManager 0 1024) [Allocate NEXT_FIT (Process ''P0'' 100 0)] = Some m \<and>
     allocate BUDDY_SYSTEM m 0 (Process ''P1'' 300 0) = Some (m', True, addr) \<and>
     committed_size m' ''P1'' = Some 300 \<and>
     available_memory m = 924 \<and> available_memory m' = 624"
proof -
  have "(case run 0 (MemoryManager 0 1024) [Allocate NEXT_FIT (Process ''P0'' 100 0)] of
           None \<Rightarrow> None
         | Some m \<Rightarrow> map_option (\<lambda>(m', okay, addr). (okay, available_memory m))
                      (allocate BUDDY_SYSTEM m 0 (Process ''P1'' 300 0)))
        = Some (True, 924)" by code_simp
  then obtain m m' addr where
    r: "run 0 (MemoryManager 0 1024) [Allocate NEXT_FIT (Process ''P0'' 100 0)] = Some m"
    and a: "allocate BUDDY_SYSTEM m 0 (Process ''P1'' 300 0) = Some (m', True, addr)"
    and v: "available_memory m = 924"
    by (auto split: option.splits)
  from C10_committed_size_is_request_size[OF r a] r a v show ?thesis
    by (auto simp: Process_def)
qed

end
